theory Spec2Isabelle
  imports Main "HOL-Library.AList"
begin

section \<open>The job scheduler of the-void-jobs (src/the-void-jobs/src/scheduler.ts)\<close>

text \<open>
  The development embeds the class \<^verbatim>\<open>JobScheduler\<close>: the registry of jobs, the
  validation of the dependency graph, the topological sort, the execution round and the
  grouping of jobs under cron triggers.

  A JavaScript \<^verbatim>\<open>Map\<close> iterates in insertion order and \<^verbatim>\<open>set\<close> on a present key
  keeps the key's position, so a \<^verbatim>\<open>Map\<close> is an association list handled with
  \<^const>\<open>AList.update\<close> (replace in place, else append), \<^const>\<open>map_of\<close> and
  \<^const>\<open>AList.delete\<close>. A \<^verbatim>\<open>Set\<close> that is never iterated is a HOL set.

  Names are those of the source. A variable of the source whose name is also a field
  of a record here is written with an underscore (\<open>job_name\<close> for \<^verbatim>\<open>jobName\<close>), and a
  loop of the source is a function named after what it does.
\<close>

subsection \<open>Data model (types/job.ts)\<close>

text \<open>
  A value thrown by \<^verbatim>\<open>execute()\<close> is an \<^verbatim>\<open>Error\<close> object (with its message) or any other
  value. Of a value that is not an \<^verbatim>\<open>Error\<close> the scheduler uses only \<^verbatim>\<open>String(value)\<close>,
  which gives its rendering (\<open>NonError\<close>) or, for a value without a conversion to a
  string (\<^verbatim>\<open>Object.create(null)\<close>, an object whose \<^verbatim>\<open>toString\<close> throws), throws in turn
  (\<open>NoString\<close>, with the value the conversion throws).
\<close>

datatype thrown = ErrorObject string | NonError string | NoString thrown

text \<open>
  \<^verbatim>\<open>execute(): Promise<void>\<close> is opaque to the scheduler: it acts on the world outside
  (type \<open>'w\<close>) and its promise is fulfilled (\<open>Inr ()\<close>) or rejected with a thrown value.
\<close>

record 'w Job =
  name :: string
  description :: "string option"
  dependencies :: "string list option"
  execute :: "'w \<Rightarrow> (thrown + unit) \<times> 'w"

record JobResult =
  success :: bool
  message :: "string option"
  error :: "thrown option"
  executionTime :: int
  jobName :: "string option"
  dependenciesMet :: "bool option"
  skippedReason :: "string option"

text \<open>
  A task object returned by \<^verbatim>\<open>cron.schedule\<close> (node-cron, an external library): the
  expression it fires on and whether it is armed. \<^verbatim>\<open>start()\<close> arms it, \<^verbatim>\<open>stop()\<close>
  disarms it; with \<^verbatim>\<open>scheduled: false\<close> it is created unarmed.
\<close>

datatype task_status = Created | Started | Stopped

record ScheduledTask =
  expression :: string
  status :: task_status

text \<open>
  The fields of the class. The task objects live in \<open>cron_tasks\<close>, addressed by their
  index; \<open>scheduledTasks\<close> holds the references.
\<close>

record 'w JobScheduler =
  jobs :: "(string \<times> 'w Job) list"
  scheduledTasks :: "(string \<times> nat) list"
  scheduleToJobs :: "(string \<times> string set) list"
  isExecuting :: bool
  cron_tasks :: "ScheduledTask list"

definition new_JobScheduler :: "'w JobScheduler" where
  "new_JobScheduler =
     \<lparr>jobs = [], scheduledTasks = [], scheduleToJobs = [], isExecuting = False, cron_tasks = []\<rparr>"

text \<open>The errors thrown by the scheduler itself, each \<^verbatim>\<open>new Error(message)\<close>.\<close>

datatype sched_error =
    InvalidCronExpression string
  | DependencyNotFound string string
  | CircularDependency string
  | TypeError

fun error_message :: "sched_error \<Rightarrow> string" where
  "error_message (InvalidCronExpression cronExpression) =
     ''Invalid cron expression: '' @ cronExpression"
| "error_message (DependencyNotFound depName requiredBy) =
     ''Job dependency not found: '' @ depName @ '' (required by '' @ requiredBy @ '')''"
| "error_message (CircularDependency job_name) =
     ''Circular dependency detected involving job: '' @ job_name"
| "error_message TypeError = ''Cannot read properties of undefined''"

subsection \<open>detectCircularDependencies\<close>

text \<open>The list \<^verbatim>\<open>job?.dependencies\<close> iterated by \<^verbatim>\<open>hasCycle\<close>: empty when there is none.\<close>

definition deps_of :: "(string \<times> 'w Job) list \<Rightarrow> string \<Rightarrow> string list" where
  "deps_of js job_name =
     (case map_of js job_name of
        None \<Rightarrow> []
      | Some job \<Rightarrow> (case dependencies job of None \<Rightarrow> [] | Some ds \<Rightarrow> ds))"

definition unvisited :: "(string \<times> 'w Job) list \<Rightarrow> string set \<Rightarrow> nat" where
  "unvisited js V = length (filter (\<lambda>k. k \<notin> V) (map fst js))"

text \<open>
  The closure \<^verbatim>\<open>hasCycle\<close> with the two sets it mutates passed through, and its
  \<^verbatim>\<open>for\<close> loop over the dependencies, which returns at the first \<^verbatim>\<open>true\<close>.
\<close>

function hasCycle ::
    "(string \<times> 'w Job) list \<Rightarrow> string \<Rightarrow> string set \<times> string set \<Rightarrow> bool \<times> string set \<times> string set"
  and hasCycle_deps ::
    "(string \<times> 'w Job) list \<Rightarrow> string list \<Rightarrow> string set \<times> string set \<Rightarrow> bool \<times> string set \<times> string set"
where
  "hasCycle js job_name (visited, recursionStack) =
     (if job_name \<in> recursionStack then (True, visited, recursionStack)
      else if job_name \<in> visited then (False, visited, recursionStack)
      else (case hasCycle_deps js (deps_of js job_name)
                   (insert job_name visited, insert job_name recursionStack) of
              (found, visited', recursionStack') \<Rightarrow>
                if found then (True, visited', recursionStack')
                else (False, visited', recursionStack' - {job_name})))"
| "hasCycle_deps js [] st = (False, st)"
| "hasCycle_deps js (depName # rest) st =
     (case hasCycle js depName st of
        (found, st') \<Rightarrow> if found then (True, st') else hasCycle_deps js rest st')"
  by pat_completeness auto

lemma unvisited_mono: "V \<subseteq> V' \<Longrightarrow> unvisited js V' \<le> unvisited js V"
  unfolding unvisited_def
  by (induction js) auto

lemma unvisited_insert:
  "n \<in> fst ` set js \<Longrightarrow> n \<notin> V \<Longrightarrow> unvisited js (insert n V) < unvisited js V"
  unfolding unvisited_def
proof (induction js)
  case Nil
  then show ?case by simp
next
  case (Cons a js)
  have le: "length (filter (\<lambda>k. k \<notin> insert n V) (map fst js))
              \<le> length (filter (\<lambda>k. k \<notin> V) (map fst js))"
    using unvisited_mono[of V "insert n V" js] by (auto simp: unvisited_def)
  show ?case
  proof (cases "fst a = n")
    case True
    then show ?thesis using Cons.prems le by auto
  next
    case False
    then have "n \<in> fst ` set js" using Cons.prems by auto
    then show ?thesis using Cons.IH Cons.prems False by auto
  qed
qed

lemma hasCycle_visited_grows:
  "hasCycle_hasCycle_deps_dom (Inl (js, n, st)) \<Longrightarrow> fst st \<subseteq> fst (snd (hasCycle js n st))"
  "hasCycle_hasCycle_deps_dom (Inr (js, ds, st)) \<Longrightarrow> fst st \<subseteq> fst (snd (hasCycle_deps js ds st))"
proof (induction js n st and js ds st rule: hasCycle_hasCycle_deps.pinduct)
  case (1 js job_name visited recursionStack)
  show ?case
  proof (cases "job_name \<in> recursionStack \<or> job_name \<in> visited")
    case True
    then show ?thesis using 1(1) by (auto simp: hasCycle.psimps)
  next
    case False
    obtain f v r where r: "hasCycle_deps js (deps_of js job_name)
                   (insert job_name visited, insert job_name recursionStack) = (f, v, r)"
      by (metis prod_cases3)
    have "insert job_name visited \<subseteq> v" using 1(2) False r by simp
    then show ?thesis using 1(1) False r by (simp add: hasCycle.psimps)
  qed
next
  case (2 js st)
  then show ?case by (simp add: hasCycle_deps.psimps)
next
  case (3 js depName rest st)
  obtain f st' where r: "hasCycle js depName st = (f, st')" by (metis surj_pair)
  have a: "fst st \<subseteq> fst st'" using 3(2) r by simp
  show ?case
  proof (cases f)
    case True
    then show ?thesis using 3(1) r a by (simp add: hasCycle_deps.psimps)
  next
    case False
    then have "fst st' \<subseteq> fst (snd (hasCycle_deps js rest st'))" using 3(3)[of f st'] r by simp
    then show ?thesis using 3(1) r a False by (auto simp add: hasCycle_deps.psimps)
  qed
qed

termination hasCycle
proof (relation "inv_image (less_than <*lex*> less_than)
          (\<lambda>x. case x of
             Inl (js, n, V, S) \<Rightarrow> (unvisited js V, Suc 0)
           | Inr (js, ds, V, S) \<Rightarrow> (unvisited js V, 2 * length ds))", goal_cases)
  case 1
  show ?case by (intro wf_inv_image wf_lex_prod wf_less_than)
next
  case (2 js job_name visited recursionStack)
  show ?case
  proof (cases "map_of js job_name")
    case None
    have "unvisited js (insert job_name visited) \<le> unvisited js visited"
      by (rule unvisited_mono) auto
    with None show ?thesis
      by (auto simp: deps_of_def)
  next
    case (Some job)
    then have "job_name \<in> fst ` set js" by (metis map_of_SomeD fst_conv image_iff)
    with 2 show ?thesis by (simp add: unvisited_insert)
  qed
next
  case (3 js depName rest st)
  then show ?case by (cases st) simp
next
  case (4 js depName rest st found st')
  have "fst st \<subseteq> fst st'"
    using hasCycle_visited_grows(1)[OF 4(3)] 4(1) by (metis snd_conv)
  then have "unvisited js (fst st') \<le> unvisited js (fst st)" by (rule unvisited_mono)
  then show ?case by (cases st; cases st') auto
qed

text \<open>
  The loop over \<^verbatim>\<open>this.jobs.keys()\<close>: the first root whose search finds a cycle is
  named in the error.
\<close>

fun detect_from ::
  "(string \<times> 'w Job) list \<Rightarrow> string list \<Rightarrow> string set \<times> string set \<Rightarrow> sched_error + unit" where
  "detect_from js [] st = Inr ()"
| "detect_from js (job_name # rest) st =
     (case hasCycle js job_name st of
        (found, st') \<Rightarrow> if found then Inl (CircularDependency job_name) else detect_from js rest st')"

definition detectCircularDependencies :: "'w JobScheduler \<Rightarrow> sched_error + unit" where
  "detectCircularDependencies s = detect_from (jobs s) (map fst (jobs s)) ({}, {})"

subsection \<open>validateJobDependencies and registerJob\<close>

definition hasJob :: "'w JobScheduler \<Rightarrow> string \<Rightarrow> bool" where
  "hasJob s job_name = (map_of (jobs s) job_name \<noteq> None)"

definition getJobs :: "'w JobScheduler \<Rightarrow> string list" where
  "getJobs s = map fst (jobs s)"

text \<open>
  The guard returns before any check when the job declares no dependency; the loop throws
  at the first declared name that \<^verbatim>\<open>this.jobs\<close> does not have.
\<close>

definition validateJobDependencies :: "'w JobScheduler \<Rightarrow> 'w Job \<Rightarrow> sched_error + unit" where
  "validateJobDependencies s job =
     (case dependencies job of
        None \<Rightarrow> Inr ()
      | Some deps \<Rightarrow>
          if deps = [] then Inr ()
          else (case find (\<lambda>depName. map_of (jobs s) depName = None) deps of
                  Some depName \<Rightarrow> Inl (DependencyNotFound depName (name job))
                | None \<Rightarrow> detectCircularDependencies s))"

text \<open>
  \<^verbatim>\<open>cron.schedule(cronExpression, callback, {scheduled: false, timezone: "UTC"})\<close>: a new
  task object, not armed; its reference is its index.
\<close>

definition cron_schedule :: "string \<Rightarrow> ScheduledTask list \<Rightarrow> nat \<times> ScheduledTask list" where
  "cron_schedule cronExpression tasks =
     (length tasks, tasks @ [\<lparr>expression = cronExpression, status = Created\<rparr>])"

definition set_status :: "nat \<Rightarrow> task_status \<Rightarrow> ScheduledTask list \<Rightarrow> ScheduledTask list" where
  "set_status task st tasks =
     (if task < length tasks then tasks[task := (tasks ! task)\<lparr>status := st\<rparr>] else tasks)"

text \<open>
  \<^verbatim>\<open>registerJob(job, cronExpression, validateDependencies)\<close>. The validator of node-cron
  is the parameter \<open>cron_validate\<close>. The job is stored first
  (\<^verbatim>\<open>this.jobs.set(job.name, job)\<close>, here \<open>store_job\<close>); each \<^verbatim>\<open>throw\<close> leaves with the
  state as it is at that point. The non-null assertion on the group cannot
  fail, since the group is created just before when it is absent.
\<close>

definition store_job :: "'w Job \<Rightarrow> 'w JobScheduler \<Rightarrow> 'w JobScheduler" where
  "store_job job s = s\<lparr>jobs := AList.update (name job) job (jobs s)\<rparr>"

definition registerJob ::
  "(string \<Rightarrow> bool) \<Rightarrow> 'w Job \<Rightarrow> string \<Rightarrow> bool \<Rightarrow> 'w JobScheduler
     \<Rightarrow> (sched_error + unit) \<times> 'w JobScheduler" where
  "registerJob cron_validate job cronExpression validateDependencies s =
     (let s1 = store_job job s in
      if \<not> cron_validate cronExpression then (Inl (InvalidCronExpression cronExpression), s1)
      else
        (case (if validateDependencies then validateJobDependencies s1 job else Inr ()) of
           Inl e \<Rightarrow> (Inl e, s1)
         | Inr _ \<Rightarrow>
            (let s2 =
               (if map_of (scheduleToJobs s1) cronExpression = None
                then (case cron_schedule cronExpression (cron_tasks s1) of
                        (task, tasks) \<Rightarrow>
                          s1\<lparr>scheduleToJobs := AList.update cronExpression {} (scheduleToJobs s1),
                             cron_tasks := tasks,
                             scheduledTasks := AList.update cronExpression task (scheduledTasks s1)\<rparr>)
                else s1)
             in (case map_of (scheduleToJobs s2) cronExpression of
                   None \<Rightarrow> (Inl TypeError, s2)
                 | Some jobSet \<Rightarrow>
                     (Inr (),
                      s2\<lparr>scheduleToJobs :=
                           AList.update cronExpression (insert (name job) jobSet)
                             (scheduleToJobs s2)\<rparr>)))))"

subsection \<open>removeJob, start, stop\<close>

text \<open>
  The loop of \<^verbatim>\<open>removeJob\<close> stops at the first group that has the name
  (\<^verbatim>\<open>break\<close>); a group left empty goes away with its task, which is stopped first.
  The result is that of \<^verbatim>\<open>this.jobs.delete(jobName)\<close>.
\<close>

definition removeJob :: "string \<Rightarrow> 'w JobScheduler \<Rightarrow> bool \<times> 'w JobScheduler" where
  "removeJob job_name s =
     (let s1 =
        (case find (\<lambda>(cronExpression, jobSet). job_name \<in> jobSet) (scheduleToJobs s) of
           None \<Rightarrow> s
         | Some (cronExpression, jobSet) \<Rightarrow>
             (let jobSet' = jobSet - {job_name} in
              if jobSet' = {} then
                (let s' = (case map_of (scheduledTasks s) cronExpression of
                             None \<Rightarrow> s
                           | Some task \<Rightarrow>
                               s\<lparr>cron_tasks := set_status task Stopped (cron_tasks s),
                                 scheduledTasks := AList.delete cronExpression (scheduledTasks s)\<rparr>)
                 in s'\<lparr>scheduleToJobs := AList.delete cronExpression (scheduleToJobs s')\<rparr>)
              else s\<lparr>scheduleToJobs := AList.update cronExpression jobSet' (scheduleToJobs s)\<rparr>))
      in (map_of (jobs s1) job_name \<noteq> None, s1\<lparr>jobs := AList.delete job_name (jobs s1)\<rparr>))"

definition start :: "'w JobScheduler \<Rightarrow> 'w JobScheduler" where
  "start s = s\<lparr>cron_tasks := fold (\<lambda>(cronExpression, task). set_status task Started)
                                  (scheduledTasks s) (cron_tasks s)\<rparr>"

definition stop :: "'w JobScheduler \<Rightarrow> 'w JobScheduler" where
  "stop s = s\<lparr>cron_tasks := fold (\<lambda>(cronExpression, task). set_status task Stopped)
                                 (scheduledTasks s) (cron_tasks s)\<rparr>"

subsection \<open>resolveDependencies\<close>

text \<open>\<^verbatim>\<open>inDegree.get(jobName) || 0\<close>.\<close>

definition degree_of :: "(string \<times> int) list \<Rightarrow> string \<Rightarrow> int" where
  "degree_of inDegree job_name = (case map_of inDegree job_name of None \<Rightarrow> 0 | Some d \<Rightarrow> d)"

text \<open>The initialisation loop: every registered name gets in-degree 0 and no dependents.\<close>

definition init_graph ::
  "string list \<Rightarrow> (string \<times> int) list \<times> (string \<times> string list) list" where
  "init_graph keys =
     fold (\<lambda>job_name (inDegree, adjList).
             (AList.update job_name 0 inDegree, AList.update job_name [] adjList))
          keys ([], [])"

text \<open>
  The loop over one job's dependencies: \<^verbatim>\<open>adjList.get(depName)?.push(jobName)\<close> does
  nothing for a name without an entry, and the in-degree is incremented for every
  declared name all the same.
\<close>

fun add_edges ::
  "string \<Rightarrow> string list \<Rightarrow> (string \<times> int) list \<times> (string \<times> string list) list
     \<Rightarrow> (string \<times> int) list \<times> (string \<times> string list) list" where
  "add_edges job_name [] g = g"
| "add_edges job_name (depName # rest) (inDegree, adjList) =
     add_edges job_name rest
       (AList.update job_name (degree_of inDegree job_name + 1) inDegree,
        (case map_of adjList depName of
           None \<Rightarrow> adjList
         | Some dependents \<Rightarrow> AList.update depName (dependents @ [job_name]) adjList))"

fun build_graph ::
  "(string \<times> 'w Job) list \<Rightarrow> (string \<times> int) list \<times> (string \<times> string list) list
     \<Rightarrow> (string \<times> int) list \<times> (string \<times> string list) list" where
  "build_graph [] g = g"
| "build_graph ((job_name, job) # rest) g =
     build_graph rest
       (case dependencies job of None \<Rightarrow> g | Some deps \<Rightarrow> add_edges job_name deps g)"

text \<open>The loop over the dependents of the job just taken from the queue.\<close>

fun decrement_dependents ::
  "string list \<Rightarrow> (string \<times> int) list \<times> string list \<Rightarrow> (string \<times> int) list \<times> string list" where
  "decrement_dependents [] (inDegree, queue) = (inDegree, queue)"
| "decrement_dependents (dependent # rest) (inDegree, queue) =
     (let newDegree = degree_of inDegree dependent - 1
      in decrement_dependents rest
           (AList.update dependent newDegree inDegree,
            if newDegree = 0 then queue @ [dependent] else queue))"

definition pending :: "(string \<times> int) list \<Rightarrow> nat" where
  "pending inDegree = length (filter (\<lambda>p. 0 < snd p) inDegree)"

lemma pending_update_le:
  "map_of al k = Some d \<Longrightarrow> v \<le> d \<Longrightarrow> pending (AList.update k v al) \<le> pending al"
  unfolding pending_def by (induction al) (auto split: if_splits)

lemma pending_update_zero:
  "map_of al k = Some d \<Longrightarrow> 0 < d \<Longrightarrow> v \<le> 0 \<Longrightarrow> Suc (pending (AList.update k v al)) = pending al"
  unfolding pending_def by (induction al) (auto split: if_splits)

lemma pending_update_nonpos:
  "v \<le> 0 \<Longrightarrow> pending (AList.update k v al) \<le> pending al"
  unfolding pending_def by (induction al) auto

lemma decrement_dependents_measure:
  "decrement_dependents ds (inDegree, queue) = (inDegree', queue') \<Longrightarrow>
   pending inDegree' + length queue' \<le> pending inDegree + length queue"
proof (induction ds arbitrary: inDegree queue)
  case Nil
  then show ?case by simp
next
  case (Cons d ds)
  let ?n = "degree_of inDegree d - 1"
  let ?al = "AList.update d ?n inDegree"
  let ?q = "if ?n = 0 then queue @ [d] else queue"
  have rec: "decrement_dependents ds (?al, ?q) = (inDegree', queue')"
    using Cons.prems by (simp add: Let_def)
  have step: "pending ?al + length ?q \<le> pending inDegree + length queue"
  proof (cases "?n = 0")
    case True
    then have "map_of inDegree d = Some 1"
      by (auto simp: degree_of_def split: option.splits)
    then have "Suc (pending ?al) = pending inDegree"
      using True by (intro pending_update_zero) auto
    then show ?thesis using True by simp
  next
    case False
    have "pending ?al \<le> pending inDegree"
    proof (cases "map_of inDegree d")
      case None
      then have "?n \<le> 0" by (simp add: degree_of_def)
      then show ?thesis by (rule pending_update_nonpos)
    next
      case (Some x)
      then show ?thesis by (intro pending_update_le[of _ _ x]) (auto simp: degree_of_def)
    qed
    then show ?thesis using False by simp
  qed
  from Cons.IH[OF rec] step show ?case by linarith
qed

text \<open>
  The \<^verbatim>\<open>while (queue.length > 0)\<close> loop of Kahn's algorithm. Every push is paid for by
  an in-degree that falls from positive to zero, which bounds the number of rounds.
\<close>

function process_queue ::
  "(string \<times> string list) list \<Rightarrow> (string \<times> int) list \<Rightarrow> string list \<Rightarrow> string list \<Rightarrow> string list" where
  "process_queue adjList inDegree [] result = result"
| "process_queue adjList inDegree (currentJob # queue) result =
     (case decrement_dependents
             (case map_of adjList currentJob of None \<Rightarrow> [] | Some dependents \<Rightarrow> dependents)
             (inDegree, queue) of
        (inDegree', queue') \<Rightarrow> process_queue adjList inDegree' queue' (result @ [currentJob]))"
  by pat_completeness auto
termination
proof (relation "measure (\<lambda>(adjList, inDegree, queue, result). pending inDegree + length queue)",
       goal_cases)
  case 1
  show ?case by simp
next
  case (2 adjList inDegree currentJob queue result inDegree' queue')
  then have "pending inDegree' + length queue' \<le> pending inDegree + length queue"
    by (intro decrement_dependents_measure) (rule sym)
  then show ?case by simp
qed

definition resolveDependencies :: "'w JobScheduler \<Rightarrow> string list" where
  "resolveDependencies s =
     (case build_graph (jobs s) (init_graph (map fst (jobs s))) of
        (inDegree, adjList) \<Rightarrow>
          process_queue adjList inDegree
            (map fst (filter (\<lambda>(job_name, degree). degree = 0) inDegree)) [])"

definition getExecutionOrder :: "'w JobScheduler \<Rightarrow> string list" where
  "getExecutionOrder s = resolveDependencies s"

subsection \<open>executeJob\<close>

text \<open>
  What the scheduler sees of its environment: the world the jobs act on, and the log of
  the calls of \<^verbatim>\<open>job.execute()\<close> in the order they are made. The clock read by
  \<^verbatim>\<open>Date.now()\<close> is the parameter \<open>now\<close>.
\<close>

record 'w runtime =
  world :: 'w
  invoked :: "string list"

text \<open>
  \<^verbatim>\<open>error instanceof Error ? error : new Error(String(error))\<close>: the \<^verbatim>\<open>Error\<close> to attach
  (\<open>Inr\<close>), or the value thrown by \<^verbatim>\<open>String(error)\<close> (\<open>Inl\<close>).
\<close>

fun as_Error :: "thrown \<Rightarrow> thrown + thrown" where
  "as_Error (ErrorObject msg) = Inr (ErrorObject msg)"
| "as_Error (NonError rendering) = Inr (ErrorObject rendering)"
| "as_Error (NoString conversionError) = Inl conversionError"

text \<open>
  \<^verbatim>\<open>executeJob(jobName)\<close>: the promise is fulfilled with a result (\<open>Inr\<close>) or rejected
  (\<open>Inl\<close>). The \<^verbatim>\<open>catch\<close> block has no handler of its own, so what \<^verbatim>\<open>String(error)\<close>
  throws inside it rejects the promise.
\<close>

definition executeJob ::
  "('w \<Rightarrow> int) \<Rightarrow> 'w JobScheduler \<Rightarrow> string \<Rightarrow> 'w runtime
     \<Rightarrow> (thrown + JobResult) \<times> 'w runtime" where
  "executeJob now s job_name rt =
     (case map_of (jobs s) job_name of
        None \<Rightarrow>
          (Inr \<lparr>success = False, message = None,
                error = Some (ErrorObject (''Job not found: '' @ job_name)),
                executionTime = 0, jobName = None, dependenciesMet = None,
                skippedReason = None\<rparr>,
           rt)
      | Some job \<Rightarrow>
          (let startTime = now (world rt) in
           case execute job (world rt) of
             (outcome, w') \<Rightarrow>
               (let rt' = \<lparr>world = w', invoked = invoked rt @ [job_name]\<rparr>;
                    elapsed = now w' - startTime
                in case outcome of
                     Inr _ \<Rightarrow>
                       (Inr \<lparr>success = True,
                             message = Some (''Job '' @ job_name @ '' completed successfully''),
                             error = None, executionTime = elapsed, jobName = None,
                             dependenciesMet = None, skippedReason = None\<rparr>,
                        rt')
                   | Inl e \<Rightarrow>
                       (case as_Error e of
                          Inl conversionError \<Rightarrow> (Inl conversionError, rt')
                        | Inr jobError \<Rightarrow>
                            (Inr \<lparr>success = False, message = None, error = Some jobError,
                                  executionTime = elapsed, jobName = None,
                                  dependenciesMet = None, skippedReason = None\<rparr>,
                             rt')))))"

subsection \<open>executeJobsWithDependencies\<close>

text \<open>
  The inner loop over a job's dependencies: it stops at the first name that is not in
  \<^verbatim>\<open>completedJobs\<close>. The pair is (\<^verbatim>\<open>dependenciesMet\<close>, \<^verbatim>\<open>skippedReason\<close>).
\<close>

fun check_dependencies :: "string list \<Rightarrow> string set \<Rightarrow> bool \<times> string" where
  "check_dependencies [] completed = (True, [])"
| "check_dependencies (depName # rest) completed =
     (if depName \<notin> completed
      then (False, ''Dependency failed or was skipped: '' @ depName)
      else check_dependencies rest completed)"

text \<open>
  One pass of the loop over \<^verbatim>\<open>executionOrder\<close>, on the triple of \<^verbatim>\<open>results\<close>,
  \<^verbatim>\<open>completedJobs\<close> and the environment. A name that \<^verbatim>\<open>this.jobs\<close> no longer has is
  passed over (\<^verbatim>\<open>if (!job) continue\<close>). The pass ends the loop (\<open>Inl\<close>) when the awaited
  \<^verbatim>\<open>executeJob\<close> rejects: the \<^verbatim>\<open>try\<close> of the round has no \<^verbatim>\<open>catch\<close>.
\<close>

definition run_job ::
  "('w \<Rightarrow> int) \<Rightarrow> 'w JobScheduler \<Rightarrow> string
     \<Rightarrow> JobResult list \<times> string set \<times> 'w runtime
     \<Rightarrow> (thrown \<times> 'w runtime) + (JobResult list \<times> string set \<times> 'w runtime)" where
  "run_job now s job_name st =
     (case st of (rs, completed, rt) \<Rightarrow>
        (case map_of (jobs s) job_name of
           None \<Rightarrow> Inr (rs, completed, rt)
         | Some job \<Rightarrow>
             (case (case dependencies job of
                      None \<Rightarrow> (True, [])
                    | Some deps \<Rightarrow> check_dependencies deps completed) of
                (met, reason) \<Rightarrow>
                  if \<not> met then
                    Inr (rs @ [\<lparr>success = False, message = None, error = None,
                                executionTime = 0, jobName = Some job_name,
                                dependenciesMet = Some False, skippedReason = Some reason\<rparr>],
                         completed, rt)
                  else
                    (case executeJob now s job_name rt of
                       (Inl e, rt') \<Rightarrow> Inl (e, rt')
                     | (Inr r, rt') \<Rightarrow>
                         Inr (rs @ [r\<lparr>jobName := Some job_name, dependenciesMet := Some True\<rparr>],
                              if success r then insert job_name completed else completed,
                              rt')))))"

fun run_jobs ::
  "('w \<Rightarrow> int) \<Rightarrow> 'w JobScheduler \<Rightarrow> string list
     \<Rightarrow> JobResult list \<times> string set \<times> 'w runtime
     \<Rightarrow> (thrown \<times> 'w runtime) + (JobResult list \<times> string set \<times> 'w runtime)" where
  "run_jobs now s [] st = Inr st"
| "run_jobs now s (job_name # rest) st =
     (case run_job now s job_name st of
        Inl rejection \<Rightarrow> Inl rejection
      | Inr st' \<Rightarrow> run_jobs now s rest st')"

text \<open>
  The whole call, run with no other call of the scheduler between its awaits: the
  guard, the flag, the round, and the \<^verbatim>\<open>finally\<close> that clears the flag whether the round
  returns or throws. The result is the returned list (\<open>Inr\<close>) or the value the promise
  is rejected with (\<open>Inl\<close>), with the state and the environment after the call.
\<close>

definition executeJobsWithDependencies ::
  "('w \<Rightarrow> int) \<Rightarrow> 'w JobScheduler \<Rightarrow> 'w runtime
     \<Rightarrow> (thrown + JobResult list) \<times> 'w JobScheduler \<times> 'w runtime" where
  "executeJobsWithDependencies now s rt =
     (if isExecuting s then (Inr [], s, rt)
      else
        (let s1 = s\<lparr>isExecuting := True\<rparr> in
         case run_jobs now s1 (resolveDependencies s1) ([], {}, rt) of
           Inl (e, rt') \<Rightarrow> (Inl e, s1\<lparr>isExecuting := False\<rparr>, rt')
         | Inr (rs, completed, rt') \<Rightarrow> (Inr rs, s1\<lparr>isExecuting := False\<rparr>, rt')))"

subsection \<open>Calls in sequence, and rounds suspended at an await\<close>

datatype 'w call =
    RegisterJob "'w Job" string bool
  | RemoveJob string
  | Start
  | Stop

fun apply_call :: "(string \<Rightarrow> bool) \<Rightarrow> 'w call \<Rightarrow> 'w JobScheduler \<Rightarrow> 'w JobScheduler" where
  "apply_call cron_validate (RegisterJob job cronExpression validateDependencies) s =
     snd (registerJob cron_validate job cronExpression validateDependencies s)"
| "apply_call cron_validate (RemoveJob job_name) s = snd (removeJob job_name s)"
| "apply_call cron_validate Start s = start s"
| "apply_call cron_validate Stop s = stop s"

text \<open>
  The runtime is single-threaded and a round gives control away only at
  \<^verbatim>\<open>await this.executeJob(jobName)\<close>. A process is the scheduler, the environment, the
  invocations of \<^verbatim>\<open>executeJobsWithDependencies\<close> that have passed the guard and not yet
  returned (each with the rest of its execution order, its \<^verbatim>\<open>results\<close> and its
  \<^verbatim>\<open>completedJobs\<close>), and what the invocations have returned or thrown so far. An event
  is a trigger firing or an explicit call (\<open>Invoke\<close>), one suspended invocation going on
  by one pass of its loop, returning, or throwing what the awaited \<^verbatim>\<open>executeJob\<close> threw
  (\<open>Resume\<close>), or another call of the scheduler in between.
\<close>

record 'w process =
  scheduler :: "'w JobScheduler"
  environment :: "'w runtime"
  inflight :: "(string list \<times> JobResult list \<times> string set) list"
  returned :: "(thrown + JobResult list) list"

datatype 'w event = Invoke | Resume nat | Call "'w call"

fun step :: "(string \<Rightarrow> bool) \<Rightarrow> ('w \<Rightarrow> int) \<Rightarrow> 'w event \<Rightarrow> 'w process \<Rightarrow> 'w process" where
  "step cron_validate now Invoke p =
     (if isExecuting (scheduler p) then p\<lparr>returned := returned p @ [Inr []]\<rparr>
      else
        (let s1 = (scheduler p)\<lparr>isExecuting := True\<rparr> in
         p\<lparr>scheduler := s1, inflight := inflight p @ [(resolveDependencies s1, [], {})]\<rparr>))"
| "step cron_validate now (Resume i) p =
     (if i < length (inflight p) then
        (case inflight p ! i of
           ([], rs, completed) \<Rightarrow>
             p\<lparr>scheduler := (scheduler p)\<lparr>isExecuting := False\<rparr>,
               inflight := take i (inflight p) @ drop (Suc i) (inflight p),
               returned := returned p @ [Inr rs]\<rparr>
         | (job_name # rest, rs, completed) \<Rightarrow>
             (case run_job now (scheduler p) job_name (rs, completed, environment p) of
                Inl (e, rt') \<Rightarrow>
                  p\<lparr>scheduler := (scheduler p)\<lparr>isExecuting := False\<rparr>,
                    environment := rt',
                    inflight := take i (inflight p) @ drop (Suc i) (inflight p),
                    returned := returned p @ [Inl e]\<rparr>
              | Inr (rs', completed', rt') \<Rightarrow>
                  p\<lparr>environment := rt', inflight := (inflight p)[i := (rest, rs', completed')]\<rparr>))
      else p)"
| "step cron_validate now (Call c) p = p\<lparr>scheduler := apply_call cron_validate c (scheduler p)\<rparr>"

fun run :: "(string \<Rightarrow> bool) \<Rightarrow> ('w \<Rightarrow> int) \<Rightarrow> 'w event list \<Rightarrow> 'w process \<Rightarrow> 'w process" where
  "run cron_validate now [] p = p"
| "run cron_validate now (e # es) p = run cron_validate now es (step cron_validate now e p)"

text \<open>
  An event is quiet when it registers or removes no job and does not resume the round
  in flight: a trigger firing or an explicit invocation, \<^verbatim>\<open>start()\<close>, \<^verbatim>\<open>stop()\<close>, and
  the resumption of an invocation other than the first in line.
\<close>

definition quiet :: "'w event \<Rightarrow> bool" where
  "quiet e =
     (case e of
        Invoke \<Rightarrow> True
      | Resume i \<Rightarrow> 0 < i
      | Call c \<Rightarrow> (case c of Start \<Rightarrow> True | Stop \<Rightarrow> True | _ \<Rightarrow> False))"

subsection \<open>The dependency graph\<close>

text \<open>
  The names a job declares, none when the field is absent; the edges of the graph lead
  from a registered job to each name it declares; the graph has a cycle when some name
  reaches itself along one edge or more.
\<close>

definition declared :: "'w Job \<Rightarrow> string list" where
  "declared job = (case dependencies job of None \<Rightarrow> [] | Some ds \<Rightarrow> ds)"

definition edges :: "(string \<times> 'w Job) list \<Rightarrow> (string \<times> string) set" where
  "edges js = {(a, b). b \<in> set (deps_of js a)}"

definition cyclic :: "(string \<times> 'w Job) list \<Rightarrow> bool" where
  "cyclic js = (\<exists>n. (n, n) \<in> (edges js)\<^sup>+)"

text \<open>Every declared name of every registered job is registered.\<close>

definition deps_registered :: "(string \<times> 'w Job) list \<Rightarrow> bool" where
  "deps_registered js = (\<forall>k \<in> fst ` set js. \<forall>d \<in> set (deps_of js k). d \<in> fst ` set js)"

text \<open>
  A list of names in which every declared name of an entry stands at an earlier
  position.
\<close>

definition dependencies_first :: "(string \<times> 'w Job) list \<Rightarrow> string list \<Rightarrow> bool" where
  "dependencies_first js order =
     (\<forall>i < length order. \<forall>d \<in> set (deps_of js (order ! i)). \<exists>k < i. order ! k = d)"

subsection \<open>Triggers and schedule groups\<close>

text \<open>
  The jobs grouped under an expression, the task references the scheduler holds for it,
  and the task objects on it that are armed, referenced or not.
\<close>

definition members :: "'w JobScheduler \<Rightarrow> string \<Rightarrow> string set" where
  "members s cronExpression =
     (case map_of (scheduleToJobs s) cronExpression of None \<Rightarrow> {} | Some jobSet \<Rightarrow> jobSet)"

definition tasks_on :: "'w JobScheduler \<Rightarrow> string \<Rightarrow> nat list" where
  "tasks_on s cronExpression =
     map snd (filter (\<lambda>(c, task). c = cronExpression) (scheduledTasks s))"

definition armed_on :: "'w JobScheduler \<Rightarrow> string \<Rightarrow> nat list" where
  "armed_on s cronExpression =
     filter (\<lambda>task. expression (cron_tasks s ! task) = cronExpression
                    \<and> status (cron_tasks s ! task) = Started)
       [0 ..< length (cron_tasks s)]"

subsection \<open>The results of a round\<close>

text \<open>
  The names of the results that report success, the result recorded for a job that is
  skipped for a dependency, and the names of the results whose job was run.
\<close>

definition succeeded :: "JobResult list \<Rightarrow> string set" where
  "succeeded rs = set (List.map_filter (\<lambda>r. if success r then jobName r else None) rs)"

definition skipped :: "string \<Rightarrow> string \<Rightarrow> JobResult" where
  "skipped job_name depName =
     \<lparr>success = False, message = None, error = None, executionTime = 0,
      jobName = Some job_name, dependenciesMet = Some False,
      skippedReason = Some (''Dependency failed or was skipped: '' @ depName)\<rparr>"

definition executed_names :: "JobResult list \<Rightarrow> string list" where
  "executed_names rs =
     List.map_filter (\<lambda>r. if dependenciesMet r = Some True then jobName r else None) rs"

subsection \<open>Invariants\<close>

text \<open>
  Of the triggers: the two maps have the same expressions in the same order, no group
  is empty, every reference leads to a task object of its own on that expression, and
  a task object that is armed is referenced.
\<close>

definition timers_inv :: "'w JobScheduler \<Rightarrow> bool" where
  "timers_inv s =
     (map fst (scheduledTasks s) = map fst (scheduleToJobs s)
      \<and> distinct (map fst (scheduleToJobs s))
      \<and> (\<forall>(cronExpression, jobSet) \<in> set (scheduleToJobs s). jobSet \<noteq> {})
      \<and> distinct (map snd (scheduledTasks s))
      \<and> (\<forall>(cronExpression, task) \<in> set (scheduledTasks s).
            task < length (cron_tasks s) \<and> expression (cron_tasks s ! task) = cronExpression)
      \<and> (\<forall>task < length (cron_tasks s).
            status (cron_tasks s ! task) = Started \<longrightarrow> task \<in> snd ` set (scheduledTasks s)))"

text \<open>
  Of the depth-first search: the names that are visited and no longer on the stack lie
  on no cycle, and every edge from one of them leads to another.
\<close>

definition finished_ok :: "(string \<times> 'w Job) list \<Rightarrow> string set \<Rightarrow> bool" where
  "finished_ok js B =
     (\<forall>a \<in> B. (a, a) \<notin> (edges js)\<^sup>+ \<and> (\<forall>b. (a, b) \<in> edges js \<longrightarrow> b \<in> B))"

text \<open>
  Of Kahn's loop, for any map with unique keys \<open>K\<close>: the result and the queue have no
  name twice, hold registered names only, and hold no name of positive in-degree.
\<close>

definition queue_inv :: "string set \<Rightarrow> (string \<times> int) list \<Rightarrow> string list \<Rightarrow> string list \<Rightarrow> bool" where
  "queue_inv K inDegree queue result =
     (distinct (result @ queue) \<and> set (result @ queue) \<subseteq> K
      \<and> (\<forall>j. j \<in> set (result @ queue) \<or> j \<notin> K \<longrightarrow> degree_of inDegree j \<le> 0))"

text \<open>
  The list \<^verbatim>\<open>adjList.get(depName)\<close> once the graph is built: every job that declares
  the name, once per entry, in the order of registration.
\<close>

definition dependents_of :: "(string \<times> 'w Job) list \<Rightarrow> string \<Rightarrow> string list" where
  "dependents_of js depName =
     concat (map (\<lambda>(job_name, job). replicate (count_list (declared job) depName) job_name) js)"

text \<open>
  Of Kahn's loop, when every declared name is registered: an in-degree counts the
  declared entries that are not yet in the result, a name is in the result or the
  queue exactly when everything it declares is in the result, and the result has
  dependencies first.
\<close>

definition kahn_inv ::
  "(string \<times> 'w Job) list \<Rightarrow> (string \<times> int) list \<Rightarrow> string list \<Rightarrow> string list \<Rightarrow> bool" where
  "kahn_inv js inDegree queue result =
     (distinct (result @ queue) \<and> set (result @ queue) \<subseteq> fst ` set js
      \<and> (\<forall>j \<in> fst ` set js.
            degree_of inDegree j = int (length (filter (\<lambda>d. d \<notin> set result) (deps_of js j))))
      \<and> (\<forall>j \<in> fst ` set js. (j \<in> set (result @ queue)) = (set (deps_of js j) \<subseteq> set result))
      \<and> dependencies_first js result)"

text \<open>
  Of the guard of \<^verbatim>\<open>executeJobsWithDependencies\<close>: at most one invocation is
  suspended, and the flag is set exactly then.
\<close>

definition guard_inv :: "'w process \<Rightarrow> bool" where
  "guard_inv p =
     (length (inflight p) \<le> 1 \<and> isExecuting (scheduler p) = (inflight p \<noteq> []))"

subsection \<open>Concrete instances\<close>

text \<open>
  For the instances below: a validator that accepts the default schedule only, and a
  job over the trivial world whose \<^verbatim>\<open>execute()\<close> always has the given outcome.
\<close>

definition sample_validate :: "string \<Rightarrow> bool" where
  "sample_validate cronExpression = (cronExpression = ''0 * * * *'')"

definition sample_job :: "string \<Rightarrow> string list option \<Rightarrow> thrown + unit \<Rightarrow> unit Job" where
  "sample_job n deps outcome =
     \<lparr>name = n, description = None, dependencies = deps, execute = (\<lambda>w. (outcome, w))\<rparr>"

definition sample_calls :: "unit call list" where
  "sample_calls =
     [RegisterJob (sample_job ''A'' None (Inr ())) ''0 * * * *'' True,
      RegisterJob (sample_job ''B'' (Some [''A'']) (Inr ())) ''0 * * * *'' True,
      Start,
      RemoveJob ''A'']"

definition sample_scheduler :: "unit JobScheduler" where
  "sample_scheduler =
     \<lparr>jobs = [(''A'', sample_job ''A'' None (Inl (NonError ''boom''))),
              (''B'', sample_job ''B'' (Some [''A'']) (Inr ())),
              (''C'', sample_job ''C'' (Some [''B'']) (Inr ())),
              (''D'', sample_job ''D'' None (Inr ()))],
      scheduledTasks = [(''0 * * * *'', 0)],
      scheduleToJobs = [(''0 * * * *'', {''A'', ''B'', ''C'', ''D''})],
      isExecuting = False,
      cron_tasks = [\<lparr>expression = ''0 * * * *'', status = Created\<rparr>]\<rparr>"

text \<open>
  Sequences of calls on a new scheduler: one that registers an unvalidated job on a
  missing name and a validated dependent of it, one with a single unvalidated job, one
  that builds a graph with repeated entries in the dependency lists, one whose first
  registration is rejected for a self-dependency; and a process at rest.
\<close>

definition ghost_calls :: "unit call list" where
  "ghost_calls =
     [RegisterJob (sample_job ''A'' (Some [''ghost'']) (Inr ())) ''0 * * * *'' False,
      RegisterJob (sample_job ''B'' (Some [''A'']) (Inr ())) ''0 * * * *'' True]"

definition sample_unvalidated :: "unit call list" where
  "sample_unvalidated =
     [RegisterJob (sample_job ''X'' (Some [''ghost'']) (Inr ())) ''0 * * * *'' False]"

definition sample_dag :: "unit call list" where
  "sample_dag =
     [RegisterJob (sample_job ''A'' None (Inr ())) ''0 * * * *'' True,
      RegisterJob (sample_job ''D'' (Some []) (Inr ())) ''0 * * * *'' False,
      RegisterJob (sample_job ''B'' (Some [''A'', ''A'']) (Inr ())) ''0 * * * *'' True,
      RegisterJob (sample_job ''C'' (Some [''B'', ''A'', ''B'']) (Inr ())) ''0 * * * *'' True]"

definition sample_cyclic :: "unit call list" where
  "sample_cyclic =
     [RegisterJob (sample_job ''A'' (Some [''A'']) (Inr ())) ''0 * * * *'' True,
      RegisterJob (sample_job ''D'' None (Inr ())) ''0 * * * *'' True]"

definition sample_process :: "unit process" where
  "sample_process =
     \<lparr>scheduler = sample_scheduler, environment = \<lparr>world = (), invoked = []\<rparr>,
      inflight = [], returned = []\<rparr>"

text \<open>
  A validator that accepts two schedules, and the registration of one job under both;
  two jobs without dependencies of which the first throws a value that has no
  conversion to a string, as \<^verbatim>\<open>throw Object.create(null)\<close> does.
\<close>

definition two_schedules :: "string \<Rightarrow> bool" where
  "two_schedules cronExpression =
     (cronExpression = ''0 * * * *'' \<or> cronExpression = ''*/5 * * * *'')"

definition twice_scheduled :: "unit call list" where
  "twice_scheduled =
     [RegisterJob (sample_job ''A'' None (Inr ())) ''0 * * * *'' True,
      RegisterJob (sample_job ''A'' None (Inr ())) ''*/5 * * * *'' True]"

definition unconvertible_calls :: "unit call list" where
  "unconvertible_calls =
     [RegisterJob (sample_job ''A'' None
        (Inl (NoString (ErrorObject ''Cannot convert object to primitive value''))))
        ''0 * * * *'' True,
      RegisterJob (sample_job ''B'' None (Inr ())) ''0 * * * *'' True]"

section \<open>Properties\<close>

subsection \<open>Association lists\<close>

lemma set_update_subset: "set (AList.update k v al) \<subseteq> insert (k, v) (set al)"
  by (induction al) auto

lemma update_absent: "k \<notin> fst ` set al \<Longrightarrow> AList.update k v al = al @ [(k, v)]"
  by (induction al) auto

lemma map_of_None_keys: "map_of al k = None \<longleftrightarrow> k \<notin> fst ` set al"
  by (simp add: map_of_eq_None_iff)

lemma find_Some_set: "find P xs = Some x \<Longrightarrow> x \<in> set xs \<and> P x"
  by (induction xs) (auto split: if_splits)

lemma set_delete: "set (AList.delete k al) = {p \<in> set al. fst p \<noteq> k}"
  by (induction al) auto

lemma distinct_map_snd_delete:
  "distinct (map snd al) \<Longrightarrow> distinct (map snd (AList.delete k al))"
  by (simp add: AList.delete_eq distinct_map_filter)

lemma filter_key_map_of:
  "distinct (map fst al) \<Longrightarrow>
   map snd (filter (\<lambda>(c, t). c = e) al) = (case map_of al e of None \<Rightarrow> [] | Some t \<Rightarrow> [t])"
proof (induction al)
  case Nil
  then show ?case by simp
next
  case (Cons p al)
  obtain c t where p: "p = (c, t)" by (cases p)
  show ?case
  proof (cases "c = e")
    case True
    then have "e \<notin> fst ` set al" using Cons.prems p by simp
    then have "filter (\<lambda>(c, t). c = e) al = []"
      by (force simp: filter_empty_conv)
    then show ?thesis using True p by simp
  next
    case False
    then show ?thesis using Cons p by simp
  qed
qed

subsection \<open>What a registration and a removal do to the state\<close>

text \<open>
  The only errors are the three of the source, the state after a failure is the one
  with the job stored, and no call touches the \<^verbatim>\<open>isExecuting\<close> flag or breaks the
  uniqueness of the keys of \<^verbatim>\<open>this.jobs\<close>.
\<close>

lemma detect_from_error:
  "detect_from js ks st = Inl e \<Longrightarrow> \<exists>n \<in> set ks. e = CircularDependency n"
  by (induction ks arbitrary: st) (auto split: prod.splits if_splits)

lemma validateJobDependencies_error:
  "validateJobDependencies s job = Inl e \<Longrightarrow>
   (\<exists>d. e = DependencyNotFound d (name job)) \<or> (\<exists>n. e = CircularDependency n)"
  by (auto simp: validateJobDependencies_def detectCircularDependencies_def
           split: option.splits if_splits dest!: detect_from_error)

lemma detectCircularDependencies_error:
  "detectCircularDependencies s = Inl e \<Longrightarrow> \<exists>n. e = CircularDependency n"
  unfolding detectCircularDependencies_def by (blast dest: detect_from_error)

lemma registerJob_Inl:
  "registerJob cron_validate job cronExpression validateDependencies s = (Inl e, s') \<Longrightarrow>
   e \<noteq> TypeError \<and> s' = store_job job s"
  by (auto simp: registerJob_def Let_def cron_schedule_def update_conv'
           split: if_splits sum.splits option.splits prod.splits
           dest!: validateJobDependencies_error)

lemma registerJob_success_state:
  assumes "registerJob cron_validate job e v s = (Inr u, s')"
  shows "s' = (case map_of (scheduleToJobs s) e of
                 None \<Rightarrow> (store_job job s)\<lparr>scheduleToJobs := AList.update e {name job} (scheduleToJobs s),
                        cron_tasks := cron_tasks s @ [\<lparr>expression = e, status = Created\<rparr>],
                        scheduledTasks := AList.update e (length (cron_tasks s)) (scheduledTasks s)\<rparr>
               | Some g \<Rightarrow> (store_job job s)\<lparr>scheduleToJobs := AList.update e (insert (name job) g) (scheduleToJobs s)\<rparr>)"
  using assms
  by (auto simp: registerJob_def Let_def cron_schedule_def update_conv' store_job_def
           split: if_splits sum.splits option.splits prod.splits)

lemma registerJob_outcome:
  "cron_validate cronExpression \<Longrightarrow>
   fst (registerJob cron_validate job cronExpression validateDependencies s)
     = (if validateDependencies then validateJobDependencies (store_job job s) job else Inr ())"
  by (auto simp: registerJob_def Let_def cron_schedule_def update_conv'
           split: sum.splits option.splits prod.splits)

lemma validateJobDependencies_registered:
  assumes "declared job \<noteq> []" and "\<forall>depName \<in> set (declared job). hasJob s depName"
  shows "validateJobDependencies s job = detectCircularDependencies s"
proof -
  obtain deps where deps: "dependencies job = Some deps" "deps \<noteq> []" "declared job = deps"
    using assms(1) by (cases "dependencies job") (auto simp: declared_def)
  have "find (\<lambda>depName. map_of (jobs s) depName = None) deps = None"
    using assms(2) deps(3) by (auto simp: find_None_iff hasJob_def)
  then show ?thesis using deps by (simp add: validateJobDependencies_def)
qed

lemma removeJob_state:
  "snd (removeJob n s) =
     (case find (\<lambda>(cronExpression, jobSet). n \<in> jobSet) (scheduleToJobs s) of
        None \<Rightarrow> s\<lparr>jobs := AList.delete n (jobs s)\<rparr>
      | Some (e, g) \<Rightarrow>
          if g - {n} = {} then
            (case map_of (scheduledTasks s) e of
               None \<Rightarrow> s\<lparr>scheduleToJobs := AList.delete e (scheduleToJobs s),
                          jobs := AList.delete n (jobs s)\<rparr>
             | Some t \<Rightarrow> s\<lparr>cron_tasks := set_status t Stopped (cron_tasks s),
                            scheduledTasks := AList.delete e (scheduledTasks s),
                            scheduleToJobs := AList.delete e (scheduleToJobs s),
                            jobs := AList.delete n (jobs s)\<rparr>)
          else s\<lparr>scheduleToJobs := AList.update e (g - {n}) (scheduleToJobs s),
                 jobs := AList.delete n (jobs s)\<rparr>)"
  by (simp add: removeJob_def Let_def split: option.split prod.split)

lemma jobs_registerJob:
  "jobs (snd (registerJob cron_validate job e v s)) = AList.update (name job) job (jobs s)"
  by (auto simp: registerJob_def Let_def cron_schedule_def store_job_def
           split: sum.splits option.splits prod.splits)

lemma jobs_removeJob: "jobs (snd (removeJob n s)) = AList.delete n (jobs s)"
  by (simp add: removeJob_state split: option.splits prod.splits)

lemma jobs_keys_distinct_call:
  "distinct (map fst (jobs s)) \<Longrightarrow> distinct (map fst (jobs (apply_call cron_validate c s)))"
  by (cases c)
     (simp_all add: jobs_registerJob jobs_removeJob distinct_update distinct_delete
        start_def stop_def)

lemma jobs_keys_distinct:
  "distinct (map fst (jobs (fold (apply_call cron_validate) calls new_JobScheduler)))"
proof -
  have "\<And>s. distinct (map fst (jobs s)) \<Longrightarrow>
          distinct (map fst (jobs (fold (apply_call cron_validate) calls s)))"
    by (induction calls) (simp_all add: jobs_keys_distinct_call)
  then show ?thesis by (simp add: new_JobScheduler_def)
qed

lemma isExecuting_registerJob:
  "isExecuting (snd (registerJob cron_validate job e v s)) = isExecuting s"
  by (auto simp: registerJob_def Let_def cron_schedule_def store_job_def
           split: sum.splits option.splits prod.splits)

lemma isExecuting_removeJob: "isExecuting (snd (removeJob n s)) = isExecuting s"
  by (simp add: removeJob_state split: option.splits prod.splits)

lemma isExecuting_apply_call:
  "isExecuting (apply_call cron_validate c s) = isExecuting s"
  by (cases c) (simp_all add: isExecuting_registerJob isExecuting_removeJob start_def stop_def)

subsection \<open>The invariant of the triggers\<close>

lemma length_set_status [simp]: "length (set_status t st tasks) = length tasks"
  by (simp add: set_status_def)

lemma expression_set_status [simp]:
  "i < length tasks \<Longrightarrow> expression (set_status t st tasks ! i) = expression (tasks ! i)"
  by (simp add: set_status_def nth_list_update)

lemma status_set_status:
  "i < length tasks \<Longrightarrow>
   status (set_status t st tasks ! i) = (if i = t then st else status (tasks ! i))"
  by (simp add: set_status_def nth_list_update)

lemma timers_inv_new: "timers_inv new_JobScheduler"
  by (simp add: timers_inv_def new_JobScheduler_def)

lemma timers_inv_store_job: "timers_inv (store_job job s) = timers_inv s"
  by (simp add: timers_inv_def store_job_def)

lemma timers_inv_add_member:
  assumes "timers_inv s" "map_of (scheduleToJobs s) e = Some g"
  shows "timers_inv (s\<lparr>scheduleToJobs := AList.update e (insert n g) (scheduleToJobs s)\<rparr>)"
proof -
  have k: "e \<in> set (map fst (scheduleToJobs s))"
    using assms(2) by (metis map_of_None_keys option.distinct(1) set_map)
  then have keys: "map fst (AList.update e (insert n g) (scheduleToJobs s)) = map fst (scheduleToJobs s)"
    by (simp add: update_keys)
  have ne: "\<forall>(c, js) \<in> set (AList.update e (insert n g) (scheduleToJobs s)). js \<noteq> {}"
    using assms(1) set_update_subset[of e "insert n g" "scheduleToJobs s"]
    by (auto simp: timers_inv_def)
  show ?thesis
    using assms(1) keys ne by (simp add: timers_inv_def)
qed

lemma timers_inv_new_group:
  assumes "timers_inv s" "map_of (scheduleToJobs s) e = None"
  shows "timers_inv (s\<lparr>scheduleToJobs := AList.update e {n} (scheduleToJobs s),
                        cron_tasks := cron_tasks s @ [\<lparr>expression = e, status = Created\<rparr>],
                        scheduledTasks := AList.update e (length (cron_tasks s)) (scheduledTasks s)\<rparr>)"
proof -
  have a: "e \<notin> fst ` set (scheduleToJobs s)" using assms(2) by (simp add: map_of_None_keys)
  then have b: "e \<notin> fst ` set (scheduledTasks s)"
    using assms(1) by (metis timers_inv_def set_map)
  have u1: "AList.update e {n} (scheduleToJobs s) = scheduleToJobs s @ [(e, {n})]"
    using a by (rule update_absent)
  have u2: "AList.update e (length (cron_tasks s)) (scheduledTasks s)
              = scheduledTasks s @ [(e, length (cron_tasks s))]"
    using b by (rule update_absent)
  have fresh: "length (cron_tasks s) \<notin> snd ` set (scheduledTasks s)"
    using assms(1) by (fastforce simp: timers_inv_def)
  show ?thesis
    unfolding timers_inv_def u1 u2
    using assms(1) a fresh
    by (auto simp: timers_inv_def nth_append less_Suc_eq)
qed

lemma timers_inv_registerJob:
  assumes "timers_inv s"
  shows "timers_inv (snd (registerJob cron_validate job e v s))"
proof (cases "registerJob cron_validate job e v s")
  case (Pair r s')
  show ?thesis
  proof (cases r)
    case (Inl err)
    then show ?thesis
      using Pair registerJob_Inl[of cron_validate job e v s err s'] assms
      by (simp add: timers_inv_store_job)
  next
    case (Inr u)
    have i: "timers_inv (store_job job s)" using assms by (simp add: timers_inv_store_job)
    show ?thesis
    proof (cases "map_of (scheduleToJobs s) e")
      case None
      then show ?thesis
        using registerJob_success_state[OF Pair[unfolded Inr]] Pair
          timers_inv_new_group[OF i, of e "name job"]
        by (simp add: store_job_def)
    next
      case (Some g)
      then show ?thesis
        using registerJob_success_state[OF Pair[unfolded Inr]] Pair
          timers_inv_add_member[OF i, of e g "name job"]
        by (simp add: store_job_def)
    qed
  qed
qed

lemma timers_inv_jobs_update [simp]: "timers_inv (s\<lparr>jobs := js\<rparr>) = timers_inv s"
  by (simp add: timers_inv_def)

lemma timers_inv_shrink_group:
  assumes "timers_inv s" "g' \<noteq> {}" "(e, g) \<in> set (scheduleToJobs s)"
  shows "timers_inv (s\<lparr>scheduleToJobs := AList.update e g' (scheduleToJobs s)\<rparr>)"
proof -
  have k: "e \<in> set (map fst (scheduleToJobs s))" using assms(3) by force
  then have keys: "map fst (AList.update e g' (scheduleToJobs s)) = map fst (scheduleToJobs s)"
    by (simp add: update_keys)
  have ne: "\<forall>(c, js) \<in> set (AList.update e g' (scheduleToJobs s)). js \<noteq> {}"
    using assms(1,2) set_update_subset[of e g' "scheduleToJobs s"]
    by (auto simp: timers_inv_def)
  show ?thesis
    using assms(1) keys ne by (simp add: timers_inv_def)
qed

lemma timers_inv_drop_group:
  assumes "timers_inv s" "map_of (scheduledTasks s) e = Some t"
  shows "timers_inv (s\<lparr>cron_tasks := set_status t Stopped (cron_tasks s),
                        scheduledTasks := AList.delete e (scheduledTasks s),
                        scheduleToJobs := AList.delete e (scheduleToJobs s)\<rparr>)"
proof -
  let ?T = "scheduledTasks s" and ?G = "scheduleToJobs s" and ?C = "cron_tasks s"
  have keys: "map fst ?T = map fst ?G" and dG: "distinct (map fst ?G)"
    and ne: "\<forall>(c, js) \<in> set ?G. js \<noteq> {}" and dT: "distinct (map snd ?T)"
    and ref: "\<forall>(c, task) \<in> set ?T. task < length ?C \<and> expression (?C ! task) = c"
    and arm: "\<forall>task < length ?C. status (?C ! task) = Started \<longrightarrow> task \<in> snd ` set ?T"
    using assms(1) by (simp_all add: timers_inv_def)
  have d: "distinct (map fst ?T)" using keys dG by simp
  have uniq2: "\<And>t'. (e, t') \<in> set ?T \<Longrightarrow> t' = t"
    using assms(2) map_of_eq_Some_iff[OF d] by (metis option.inject)
  have 1: "map fst (AList.delete e ?T) = map fst (AList.delete e ?G)"
    using keys by (simp add: delete_keys)
  have 2: "distinct (map fst (AList.delete e ?G))"
    using dG by (simp add: delete_keys distinct_removeAll)
  have 3: "\<forall>(c, js) \<in> set (AList.delete e ?G). js \<noteq> {}"
    using ne by (auto simp: set_delete)
  have 4: "distinct (map snd (AList.delete e ?T))"
    using dT by (rule distinct_map_snd_delete)
  have 5: "\<forall>(c, task) \<in> set (AList.delete e ?T).
             task < length (set_status t Stopped ?C)
             \<and> expression (set_status t Stopped ?C ! task) = c"
    using ref by (auto simp: set_delete)
  have 6: "\<forall>task < length (set_status t Stopped ?C).
             status (set_status t Stopped ?C ! task) = Started
             \<longrightarrow> task \<in> snd ` set (AList.delete e ?T)"
  proof (intro allI impI)
    fix task
    assume a: "task < length (set_status t Stopped ?C)"
      and b: "status (set_status t Stopped ?C ! task) = Started"
    have lt: "task < length ?C" using a by simp
    have nt: "task \<noteq> t" using b lt by (auto simp: status_set_status)
    then have "status (?C ! task) = Started" using b lt by (simp add: status_set_status)
    then obtain x where x: "(x, task) \<in> set ?T" using arm lt by fastforce
    then have "x \<noteq> e" using uniq2 nt by blast
    then have "(x, task) \<in> set (AList.delete e ?T)" using x by (simp add: set_delete)
    then show "task \<in> snd ` set (AList.delete e ?T)" by force
  qed
  show ?thesis
    unfolding timers_inv_def using 1 2 3 4 5 6 by simp
qed

lemma timers_inv_removeJob:
  assumes "timers_inv s"
  shows "timers_inv (snd (removeJob n s))"
proof (cases "find (\<lambda>(cronExpression, jobSet). n \<in> jobSet) (scheduleToJobs s)")
  case None
  then show ?thesis using assms by (simp add: removeJob_state)
next
  case (Some p)
  obtain e g where p: "p = (e, g)" by (cases p)
  have mem: "(e, g) \<in> set (scheduleToJobs s)" using Some p by (auto dest: find_Some_set)
  show ?thesis
  proof (cases "g - {n} = {}")
    case False
    have "timers_inv (s\<lparr>scheduleToJobs := AList.update e (g - {n}) (scheduleToJobs s)\<rparr>)"
      using assms False mem by (rule timers_inv_shrink_group)
    then show ?thesis
      using Some p False by (simp add: removeJob_state)
  next
    case True
    have "e \<in> set (map fst (scheduleToJobs s))" using mem by force
    then have "e \<in> set (map fst (scheduledTasks s))" using assms by (simp add: timers_inv_def)
    then have "map_of (scheduledTasks s) e \<noteq> None" by (simp add: map_of_eq_None_iff)
    then obtain t where t: "map_of (scheduledTasks s) e = Some t" by blast
    have "timers_inv (s\<lparr>cron_tasks := set_status t Stopped (cron_tasks s),
                        scheduledTasks := AList.delete e (scheduledTasks s),
                        scheduleToJobs := AList.delete e (scheduleToJobs s)\<rparr>)"
      using assms t by (rule timers_inv_drop_group)
    then show ?thesis
      using Some p True t by (simp add: removeJob_state)
  qed
qed

lemma fold_set_status:
  "length (fold (\<lambda>(c, t). set_status t st) al tasks) = length tasks
   \<and> (\<forall>i < length tasks.
         expression (fold (\<lambda>(c, t). set_status t st) al tasks ! i) = expression (tasks ! i)
         \<and> status (fold (\<lambda>(c, t). set_status t st) al tasks ! i)
             = (if i \<in> snd ` set al then st else status (tasks ! i)))"
proof (induction al arbitrary: tasks)
  case Nil
  then show ?case by simp
next
  case (Cons p al)
  obtain c t where p: "p = (c, t)" by (cases p)
  show ?case
    using Cons.IH[of "set_status t st tasks"] p
    by (auto simp: status_set_status)
qed

lemma timers_inv_fold_set_status:
  assumes "timers_inv s"
  shows "timers_inv (s\<lparr>cron_tasks := fold (\<lambda>(c, t). set_status t st) (scheduledTasks s) (cron_tasks s)\<rparr>)"
  using assms fold_set_status[of st "scheduledTasks s" "cron_tasks s"]
  unfolding timers_inv_def
  by (simp add: split_beta) blast

lemma timers_inv_apply_call:
  "timers_inv s \<Longrightarrow> timers_inv (apply_call cron_validate c s)"
  by (cases c)
     (simp_all add: timers_inv_registerJob timers_inv_removeJob start_def stop_def
        timers_inv_fold_set_status)

lemma timers_inv_fold_calls:
  "timers_inv s \<Longrightarrow> timers_inv (fold (apply_call cron_validate) calls s)"
  by (induction calls arbitrary: s) (simp_all add: timers_inv_apply_call)

lemma tasks_on_map_of:
  "distinct (map fst (scheduledTasks s)) \<Longrightarrow>
   tasks_on s e = (case map_of (scheduledTasks s) e of None \<Rightarrow> [] | Some t \<Rightarrow> [t])"
  unfolding tasks_on_def by (rule filter_key_map_of)

lemma timers_inv_tasks_on:
  assumes "timers_inv s"
  shows "(members s e \<noteq> {} \<longrightarrow> length (tasks_on s e) = 1)
       \<and> (members s e = {} \<longrightarrow> tasks_on s e = [] \<and> map_of (scheduleToJobs s) e = None)"
proof -
  have d: "distinct (map fst (scheduledTasks s))" using assms by (simp add: timers_inv_def)
  have k: "set (map fst (scheduledTasks s)) = set (map fst (scheduleToJobs s))"
    using assms by (simp add: timers_inv_def)
  have keys: "(map_of (scheduledTasks s) e = None) = (map_of (scheduleToJobs s) e = None)"
    unfolding map_of_eq_None_iff using k by simp
  have ne: "\<forall>(c, js) \<in> set (scheduleToJobs s). js \<noteq> {}"
    using assms by (simp add: timers_inv_def)
  show ?thesis
  proof (cases "map_of (scheduleToJobs s) e")
    case None
    then show ?thesis using keys by (simp add: tasks_on_map_of[OF d] members_def)
  next
    case (Some g)
    then have "(e, g) \<in> set (scheduleToJobs s)" by (rule map_of_SomeD)
    then have "g \<noteq> {}" using ne by blast
    moreover obtain t where "map_of (scheduledTasks s) e = Some t"
      using keys Some by auto
    ultimately show ?thesis using Some by (simp add: tasks_on_map_of[OF d] members_def)
  qed
qed

lemma timers_inv_armed_on:
  assumes "timers_inv s"
  shows "set (armed_on s e) \<subseteq> set (tasks_on s e) \<and> length (armed_on s e) \<le> 1"
proof -
  have sub: "set (armed_on s e) \<subseteq> set (tasks_on s e)"
  proof
    fix t assume "t \<in> set (armed_on s e)"
    then have a: "t < length (cron_tasks s)" "expression (cron_tasks s ! t) = e"
      "status (cron_tasks s ! t) = Started"
      by (auto simp: armed_on_def)
    then obtain c where c: "(c, t) \<in> set (scheduledTasks s)"
      using assms by (fastforce simp: timers_inv_def)
    then have "c = e" using assms a(2) by (fastforce simp: timers_inv_def)
    then show "t \<in> set (tasks_on s e)" using c by (force simp: tasks_on_def)
  qed
  have d: "distinct (map fst (scheduledTasks s))" using assms by (simp add: timers_inv_def)
  have "length (tasks_on s e) \<le> 1"
    by (simp add: tasks_on_map_of[OF d] split: option.splits)
  moreover have "distinct (armed_on s e)" by (simp add: armed_on_def)
  ultimately have "length (armed_on s e) \<le> 1"
    using sub
    by (metis distinct_card card_mono List.finite_set card_length le_trans)
  with sub show ?thesis by simp
qed

lemma removeJob_last_member:
  assumes "timers_inv s"
    and "find (\<lambda>(c, js). n \<in> js) (scheduleToJobs s) = Some (e, {n})"
  shows "tasks_on (snd (removeJob n s)) e = []
       \<and> map_of (scheduleToJobs (snd (removeJob n s))) e = None
       \<and> tasks_on s e \<noteq> []
       \<and> (\<forall>t \<in> set (tasks_on s e). status (cron_tasks (snd (removeJob n s)) ! t) = Stopped)"
proof -
  have mem: "(e, {n}) \<in> set (scheduleToJobs s)" using assms(2) by (auto dest: find_Some_set)
  have d: "distinct (map fst (scheduledTasks s))" using assms(1) by (simp add: timers_inv_def)
  have "e \<in> set (map fst (scheduleToJobs s))" using mem by force
  then have "e \<in> set (map fst (scheduledTasks s))" using assms(1) by (simp add: timers_inv_def)
  then have "map_of (scheduledTasks s) e \<noteq> None" by (simp add: map_of_eq_None_iff)
  then obtain t where t: "map_of (scheduledTasks s) e = Some t" by blast
  then have "(e, t) \<in> set (scheduledTasks s)" by (rule map_of_SomeD)
  then have lt: "t < length (cron_tasks s)" using assms(1) by (fastforce simp: timers_inv_def)
  have st: "snd (removeJob n s) = s\<lparr>cron_tasks := set_status t Stopped (cron_tasks s),
                            scheduledTasks := AList.delete e (scheduledTasks s),
                            scheduleToJobs := AList.delete e (scheduleToJobs s),
                            jobs := AList.delete n (jobs s)\<rparr>"
    using assms(2) t by (simp add: removeJob_state)
  have 1: "tasks_on (snd (removeJob n s)) e = []"
    unfolding st tasks_on_def by (auto simp: filter_empty_conv set_delete)
  have 2: "map_of (scheduleToJobs (snd (removeJob n s))) e = None"
    unfolding st by (simp add: delete_conv')
  have 3: "tasks_on s e = [t]" using t by (simp add: tasks_on_map_of[OF d])
  have 4: "status (cron_tasks (snd (removeJob n s)) ! t) = Stopped"
    unfolding st using lt by (simp add: status_set_status)
  show ?thesis using 1 2 3 4 by simp
qed

text \<open>
  After any sequence of calls of \<^verbatim>\<open>registerJob\<close>, \<^verbatim>\<open>removeJob\<close>, \<^verbatim>\<open>start\<close> and \<^verbatim>\<open>stop\<close>
  on a new scheduler, in terms of the groups: an expression whose group has a member
  has exactly one task reference, however many members the group has; an expression
  without members has neither group nor task; at most one armed task object fires on
  an expression, and it is the referenced one. When \<^verbatim>\<open>removeJob\<close> takes the last
  member out of the first group that has the name, that group and its reference are
  gone afterwards and the task object is stopped. Nothing here says that the members
  of a group are registered jobs.
\<close>

lemma one_task_per_group:
  "let s = fold (apply_call cron_validate) calls new_JobScheduler in
   (members s e \<noteq> {} \<longrightarrow> length (tasks_on s e) = 1)
   \<and> (members s e = {} \<longrightarrow> tasks_on s e = [] \<and> map_of (scheduleToJobs s) e = None)
   \<and> set (armed_on s e) \<subseteq> set (tasks_on s e) \<and> length (armed_on s e) \<le> 1
   \<and> (find (\<lambda>(c, js). n \<in> js) (scheduleToJobs s) = Some (e, {n}) \<longrightarrow>
        tasks_on (snd (removeJob n s)) e = []
        \<and> map_of (scheduleToJobs (snd (removeJob n s))) e = None
        \<and> tasks_on s e \<noteq> []
        \<and> (\<forall>t \<in> set (tasks_on s e). status (cron_tasks (snd (removeJob n s)) ! t) = Stopped))"
proof -
  have inv: "timers_inv (fold (apply_call cron_validate) calls new_JobScheduler)"
    by (rule timers_inv_fold_calls[OF timers_inv_new])
  show ?thesis
    unfolding Let_def
    using timers_inv_tasks_on[OF inv, of e] timers_inv_armed_on[OF inv, of e]
      removeJob_last_member[OF inv, of n e]
    by blast
qed

subsection \<open>The depth-first search finds a cycle exactly when there is one\<close>

text \<open>
  A search that answers \<^verbatim>\<open>false\<close> leaves the recursion stack as it found it. An answer
  \<^verbatim>\<open>true\<close> is sound because every name on the stack reaches the name being visited.
  An answer \<^verbatim>\<open>false\<close> is complete because the names visited and no longer on the
  stack are closed under the edges and lie on no cycle.
\<close>

lemma hasCycle_stack:
  "hasCycle js n st = (False, st') \<Longrightarrow> snd st' = snd st"
  "hasCycle_deps js ds st = (False, st') \<Longrightarrow> snd st' = snd st"
proof (induction js n st and js ds st arbitrary: st' and st' rule: hasCycle_hasCycle_deps.induct)
  case (1 js job_name visited recursionStack)
  show ?case
  proof (cases "job_name \<in> recursionStack \<or> job_name \<in> visited")
    case True
    then show ?thesis using "1.prems" by (auto split: if_splits)
  next
    case False
    obtain f v r where r: "hasCycle_deps js (deps_of js job_name)
                   (insert job_name visited, insert job_name recursionStack) = (f, v, r)"
      by (metis prod_cases3)
    have nf: "\<not> f" and st': "st' = (v, r - {job_name})"
      using "1.prems" False r by (auto split: if_splits)
    have "snd (v, r) = snd (insert job_name visited, insert job_name recursionStack)"
      using "1.IH"[of "(v, r)"] False r nf by simp
    then show ?thesis using st' False by auto
  qed
next
  case (2 js st)
  then show ?case by simp
next
  case (3 js depName rest st)
  obtain f st1 where r: "hasCycle js depName st = (f, st1)" by (metis surj_pair)
  have nf: "\<not> f" and rest: "hasCycle_deps js rest st1 = (False, st')"
    using "3.prems" r by (auto split: if_splits)
  have "snd st1 = snd st" using "3.IH"(1)[of st1] r nf by simp
  moreover have "snd st' = snd st1" using "3.IH"(2)[OF r[symmetric] nf rest] .
  ultimately show ?case by simp
qed

lemma edges_deps: "d \<in> set (deps_of js n) \<Longrightarrow> (n, d) \<in> edges js"
  by (simp add: edges_def)

lemma hasCycle_sound:
  "hasCycle js n st = (True, st') \<Longrightarrow> \<forall>s \<in> snd st. (s, n) \<in> (edges js)\<^sup>+ \<Longrightarrow> cyclic js"
  "hasCycle_deps js ds st = (True, st') \<Longrightarrow>
     \<forall>s \<in> snd st. \<forall>d \<in> set ds. (s, d) \<in> (edges js)\<^sup>+ \<Longrightarrow> cyclic js"
proof (induction js n st and js ds st arbitrary: st' and st' rule: hasCycle_hasCycle_deps.induct)
  case (1 js job_name visited recursionStack)
  show ?case
  proof (cases "job_name \<in> recursionStack")
    case True
    then have "(job_name, job_name) \<in> (edges js)\<^sup>+" using "1.prems"(2) by simp
    then show ?thesis unfolding cyclic_def by blast
  next
    case False
    then have nv: "job_name \<notin> visited" using "1.prems"(1) by (auto split: if_splits)
    obtain f v r where r: "hasCycle_deps js (deps_of js job_name)
                   (insert job_name visited, insert job_name recursionStack) = (f, v, r)"
      by (metis prod_cases3)
    have f: "f" using "1.prems"(1) False nv r by (auto split: if_splits)
    have pre: "\<forall>s \<in> snd (insert job_name visited, insert job_name recursionStack).
                 \<forall>d \<in> set (deps_of js job_name). (s, d) \<in> (edges js)\<^sup>+"
    proof (intro ballI)
      fix s d
      assume s: "s \<in> snd (insert job_name visited, insert job_name recursionStack)"
        and d: "d \<in> set (deps_of js job_name)"
      have e: "(job_name, d) \<in> edges js" using d by (rule edges_deps)
      show "(s, d) \<in> (edges js)\<^sup>+"
      proof (cases "s = job_name")
        case True
        then show ?thesis using e by blast
      next
        case False
        then have "(s, job_name) \<in> (edges js)\<^sup>+" using s "1.prems"(2) by simp
        then show ?thesis using e by (rule trancl_into_trancl)
      qed
    qed
    show ?thesis using "1.IH"[OF False nv _ pre, of "(v, r)"] r f by simp
  qed
next
  case (2 js st)
  then show ?case by simp
next
  case (3 js depName rest st)
  obtain f st1 where r: "hasCycle js depName st = (f, st1)" by (metis surj_pair)
  show ?case
  proof (cases f)
    case True
    have "\<forall>s \<in> snd st. (s, depName) \<in> (edges js)\<^sup>+" using "3.prems"(2) by simp
    then show ?thesis using "3.IH"(1)[of st1] r True by simp
  next
    case False
    then have rest: "hasCycle_deps js rest st1 = (True, st')"
      using "3.prems"(1) r by simp
    have "snd st1 = snd st" using hasCycle_stack(1)[of js depName st st1] r False by simp
    then have "\<forall>s \<in> snd st1. \<forall>d \<in> set rest. (s, d) \<in> (edges js)\<^sup>+"
      using "3.prems"(2) by simp
    then show ?thesis using "3.IH"(2)[OF r[symmetric] False rest] by simp
  qed
qed

lemma hasCycle_visited_mono:
  "fst st \<subseteq> fst (snd (hasCycle js n st))"
  "fst st \<subseteq> fst (snd (hasCycle_deps js ds st))"
proof (induction js n st and js ds st rule: hasCycle_hasCycle_deps.induct)
  case (1 js job_name visited recursionStack)
  show ?case
  proof (cases "job_name \<in> recursionStack \<or> job_name \<in> visited")
    case True
    then show ?thesis by auto
  next
    case False
    obtain f v r where r: "hasCycle_deps js (deps_of js job_name)
                   (insert job_name visited, insert job_name recursionStack) = (f, v, r)"
      by (metis prod_cases3)
    have "insert job_name visited \<subseteq> v" using 1 False r by simp
    then show ?thesis using False r by simp
  qed
next
  case (2 js st)
  then show ?case by simp
next
  case (3 js depName rest st)
  obtain f st' where r: "hasCycle js depName st = (f, st')" by (metis surj_pair)
  have a: "fst st \<subseteq> fst st'" using 3(1) r by simp
  show ?case
  proof (cases f)
    case True
    then show ?thesis using r a by simp
  next
    case False
    then have "fst st' \<subseteq> fst (snd (hasCycle_deps js rest st'))" using 3(2)[of f st'] r by simp
    then show ?thesis using r a False by auto
  qed
qed

lemma closed_rtrancl:
  assumes "(a, b) \<in> E\<^sup>*" and "a \<in> B" and "\<forall>x \<in> B. \<forall>y. (x, y) \<in> E \<longrightarrow> y \<in> B"
  shows "b \<in> B"
  using assms by (induction rule: rtrancl_induct) blast+

lemma finished_ok_add:
  assumes ok: "finished_ok js B" and n: "n \<notin> B" and deps: "set (deps_of js n) \<subseteq> B"
  shows "finished_ok js (insert n B)"
  unfolding finished_ok_def
proof (intro ballI conjI allI impI)
  fix a assume a: "a \<in> insert n B"
  have closed: "\<forall>x \<in> B. \<forall>y. (x, y) \<in> edges js \<longrightarrow> y \<in> B"
    using ok by (simp add: finished_ok_def)
  show "(a, a) \<notin> (edges js)\<^sup>+"
  proof (cases "a = n")
    case False
    then show ?thesis using a ok by (simp add: finished_ok_def)
  next
    case True
    show ?thesis
    proof
      assume "(a, a) \<in> (edges js)\<^sup>+"
      then obtain b where b: "(n, b) \<in> edges js" "(b, n) \<in> (edges js)\<^sup>*"
        using True by (metis tranclD)
      then have "b \<in> B" using deps by (auto simp: edges_def)
      then have "n \<in> B" using closed_rtrancl[OF b(2) _ closed] by simp
      then show False using n by simp
    qed
  qed
  fix b assume e: "(a, b) \<in> edges js"
  show "b \<in> insert n B"
  proof (cases "a = n")
    case True
    then show ?thesis using e deps by (auto simp: edges_def)
  next
    case False
    then show ?thesis using a e closed by blast
  qed
qed

lemma hasCycle_complete:
  "hasCycle js n st = (False, st') \<Longrightarrow> finished_ok js (fst st - snd st) \<Longrightarrow>
     finished_ok js (fst st' - snd st) \<and> n \<in> fst st' - snd st \<and> fst st - snd st \<subseteq> fst st' - snd st"
  "hasCycle_deps js ds st = (False, st') \<Longrightarrow> finished_ok js (fst st - snd st) \<Longrightarrow>
     finished_ok js (fst st' - snd st) \<and> set ds \<subseteq> fst st' - snd st \<and> fst st - snd st \<subseteq> fst st' - snd st"
proof (induction js n st and js ds st arbitrary: st' and st' rule: hasCycle_hasCycle_deps.induct)
  case (1 js job_name visited recursionStack)
  have ns: "job_name \<notin> recursionStack" using "1.prems"(1) by (auto split: if_splits)
  show ?case
  proof (cases "job_name \<in> visited")
    case True
    then show ?thesis using "1.prems" ns by auto
  next
    case False
    obtain f v r where r: "hasCycle_deps js (deps_of js job_name)
                   (insert job_name visited, insert job_name recursionStack) = (f, v, r)"
      by (metis prod_cases3)
    have nf: "\<not> f" and st': "st' = (v, r - {job_name})"
      using "1.prems"(1) False ns r by (auto split: if_splits)
    have same: "insert job_name visited - insert job_name recursionStack = visited - recursionStack"
      using False by auto
    have pre: "finished_ok js (fst (insert job_name visited, insert job_name recursionStack)
                  - snd (insert job_name visited, insert job_name recursionStack))"
      using "1.prems"(2) same by simp
    have ih: "finished_ok js (v - insert job_name recursionStack)"
      "set (deps_of js job_name) \<subseteq> v - insert job_name recursionStack"
      "visited - recursionStack \<subseteq> v - insert job_name recursionStack"
      using "1.IH"[OF ns False _ pre, of "(v, r)"] r nf same by simp_all
    have nv: "job_name \<in> v"
      using hasCycle_visited_mono(2)[of "(insert job_name visited, insert job_name recursionStack)"
              js "deps_of js job_name"]
      unfolding r by simp
    have eq: "v - recursionStack = insert job_name (v - insert job_name recursionStack)"
      using nv ns by auto
    have "finished_ok js (insert job_name (v - insert job_name recursionStack))"
      using ih(1) _ ih(2) by (rule finished_ok_add) simp
    then show ?thesis using st' eq ih(3) by auto
  qed
next
  case (2 js st)
  then show ?case by simp
next
  case (3 js depName rest st)
  obtain f st1 where r: "hasCycle js depName st = (f, st1)" by (metis surj_pair)
  have nf: "\<not> f" and rest: "hasCycle_deps js rest st1 = (False, st')"
    using "3.prems"(1) r by (auto split: if_splits)
  have s1: "snd st1 = snd st" using hasCycle_stack(1)[of js depName st st1] r nf by simp
  have a: "finished_ok js (fst st1 - snd st)" "depName \<in> fst st1 - snd st"
    "fst st - snd st \<subseteq> fst st1 - snd st"
    using "3.IH"(1)[of st1] r nf "3.prems"(2) by simp_all
  have b: "finished_ok js (fst st' - snd st)" "set rest \<subseteq> fst st' - snd st"
    "fst st1 - snd st \<subseteq> fst st' - snd st"
    using "3.IH"(2)[OF r[symmetric] nf rest] a(1) s1 by simp_all
  show ?case using a b by auto
qed

lemma detect_from_sound:
  "detect_from js ks st = Inl e \<Longrightarrow> snd st = {} \<Longrightarrow> cyclic js"
proof (induction ks arbitrary: st)
  case Nil
  then show ?case by simp
next
  case (Cons k ks)
  obtain f st1 where r: "hasCycle js k st = (f, st1)" by (metis surj_pair)
  show ?case
  proof (cases f)
    case True
    then show ?thesis using hasCycle_sound(1)[of js k st st1] r Cons.prems(2) by simp
  next
    case False
    then have "snd st1 = {}" using hasCycle_stack(1)[of js k st st1] r Cons.prems(2) by simp
    moreover have "detect_from js ks st1 = Inl e" using Cons.prems(1) r False by simp
    ultimately show ?thesis by (rule Cons.IH[rotated])
  qed
qed

lemma detect_from_complete:
  "detect_from js ks st = Inr u \<Longrightarrow> snd st = {} \<Longrightarrow> finished_ok js (fst st) \<Longrightarrow>
   \<exists>V. finished_ok js V \<and> set ks \<subseteq> V"
proof (induction ks arbitrary: st)
  case Nil
  then show ?case by auto
next
  case (Cons k ks)
  obtain f st1 where r: "hasCycle js k st = (f, st1)" by (metis surj_pair)
  have nf: "\<not> f" and rest: "detect_from js ks st1 = Inr u"
    using Cons.prems(1) r by (auto split: if_splits)
  have s1: "snd st1 = {}" using hasCycle_stack(1)[of js k st st1] r nf Cons.prems(2) by simp
  have a: "finished_ok js (fst st1)" "k \<in> fst st1"
    using hasCycle_complete(1)[of js k st st1] r nf Cons.prems(2,3) by simp_all
  from Cons.IH[OF rest s1 a(1)] obtain V where V: "finished_ok js V" "set ks \<subseteq> V" by blast
  show ?case
  proof (cases "k \<in> V")
    case True
    then show ?thesis using V by auto
  next
    case False
    have "finished_ok js (V \<union> fst st1)"
      using V(1) a(1) unfolding finished_ok_def by blast
    then show ?thesis using V(2) a(2) by (intro exI[of _ "V \<union> fst st1"]) auto
  qed
qed

lemma detectCircularDependencies_iff:
  "(detectCircularDependencies s = Inr ()) = (\<not> cyclic (jobs s))"
proof
  assume ok: "detectCircularDependencies s = Inr ()"
  have "finished_ok (jobs s) (fst ({}::string set, {}::string set))" by (simp add: finished_ok_def)
  with ok obtain V where V: "finished_ok (jobs s) V" "set (map fst (jobs s)) \<subseteq> V"
    using detect_from_complete[of "jobs s" "map fst (jobs s)" "({}, {})" "()"]
    by (auto simp: detectCircularDependencies_def)
  show "\<not> cyclic (jobs s)"
  proof
    assume "cyclic (jobs s)"
    then obtain n where n: "(n, n) \<in> (edges (jobs s))\<^sup>+" by (auto simp: cyclic_def)
    then obtain b where "(n, b) \<in> edges (jobs s)" by (metis tranclD)
    then have "deps_of (jobs s) n \<noteq> []" by (auto simp: edges_def)
    then have "map_of (jobs s) n \<noteq> None" by (auto simp: deps_of_def split: option.splits)
    then have "n \<in> fst ` set (jobs s)" by (simp add: map_of_eq_None_iff)
    then have "n \<in> V" using V(2) by auto
    then show False using V(1) n by (simp add: finished_ok_def)
  qed
next
  assume ac: "\<not> cyclic (jobs s)"
  show "detectCircularDependencies s = Inr ()"
  proof (cases "detectCircularDependencies s")
    case (Inl e)
    then have "cyclic (jobs s)"
      using detect_from_sound[of "jobs s" "map fst (jobs s)" "({}, {})" e]
      by (simp add: detectCircularDependencies_def)
    then show ?thesis using ac by simp
  next
    case (Inr u)
    then show ?thesis by simp
  qed
qed

lemma acyclic_by_detection: "detectCircularDependencies s = Inr () \<Longrightarrow> \<not> cyclic (jobs s)"
  by (simp add: detectCircularDependencies_iff)

subsection \<open>The topological sort\<close>

text \<open>
  First what holds for any map with unique keys: the order has no name twice and only
  registered names. Then, for a graph whose declared names are all registered and that
  has no cycle, the invariant of Kahn's loop: an in-degree counts the declared entries
  not yet in the result, a name is in the result or the queue exactly when all it
  declares is in the result, and the result has dependencies first.
\<close>

lemma degree_of_update:
  "degree_of (AList.update k v al) j = (if j = k then v else degree_of al j)"
  by (simp add: degree_of_def update_conv')

lemma decrement_dependents_degree:
  "decrement_dependents xs (inDegree, queue) = (inDegree', queue') \<Longrightarrow>
   degree_of inDegree' j = degree_of inDegree j - int (count_list xs j)"
proof (induction xs arbitrary: inDegree queue)
  case Nil
  then show ?case by simp
next
  case (Cons x xs)
  let ?n = "degree_of inDegree x - 1"
  have rec: "decrement_dependents xs (AList.update x ?n inDegree,
               if ?n = 0 then queue @ [x] else queue) = (inDegree', queue')"
    using Cons.prems by (simp add: Let_def)
  show ?case
    using Cons.IH[OF rec] by (simp add: degree_of_update)
qed

lemma decrement_dependents_queue:
  "decrement_dependents xs (inDegree, queue) = (inDegree', queue') \<Longrightarrow>
   \<exists>pushed. queue' = queue @ pushed \<and> distinct pushed
     \<and> set pushed = {j \<in> set xs. 1 \<le> degree_of inDegree j
                              \<and> degree_of inDegree j \<le> int (count_list xs j)}"
proof (induction xs arbitrary: inDegree queue)
  case Nil
  then show ?case by simp
next
  case (Cons x xs)
  let ?n = "degree_of inDegree x - 1"
  let ?al = "AList.update x ?n inDegree"
  let ?q = "if ?n = 0 then queue @ [x] else queue"
  have rec: "decrement_dependents xs (?al, ?q) = (inDegree', queue')"
    using Cons.prems by (simp add: Let_def)
  from Cons.IH[OF rec] obtain pushed where
    p: "queue' = ?q @ pushed" "distinct pushed"
       "set pushed = {j \<in> set xs. 1 \<le> degree_of ?al j \<and> degree_of ?al j \<le> int (count_list xs j)}"
    by blast
  let ?first = "if ?n = 0 then [x] else []"
  have q: "queue' = queue @ (?first @ pushed)" using p(1) by simp
  have nx: "?n = 0 \<Longrightarrow> x \<notin> set pushed"
    using p(3) by (simp add: degree_of_update)
  have d: "distinct (?first @ pushed)" using p(2) nx by simp
  have s: "set (?first @ pushed) = {j \<in> set (x # xs). 1 \<le> degree_of inDegree j
                              \<and> degree_of inDegree j \<le> int (count_list (x # xs) j)}"
  proof (intro set_eqI iffI)
    fix j assume "j \<in> set (?first @ pushed)"
    then consider "?n = 0" "j = x" | "j \<in> set pushed" by (auto split: if_splits)
    then show "j \<in> {j \<in> set (x # xs). 1 \<le> degree_of inDegree j
                              \<and> degree_of inDegree j \<le> int (count_list (x # xs) j)}"
    proof cases
      case 1
      then show ?thesis by simp
    next
      case 2
      then show ?thesis using p(3) by (auto simp: degree_of_update split: if_splits)
    qed
  next
    fix j assume a: "j \<in> {j \<in> set (x # xs). 1 \<le> degree_of inDegree j
                              \<and> degree_of inDegree j \<le> int (count_list (x # xs) j)}"
    show "j \<in> set (?first @ pushed)"
    proof (cases "j = x")
      case False
      then show ?thesis using a p(3) by (simp add: degree_of_update)
    next
      case True
      show ?thesis
      proof (cases "?n = 0")
        case True
        then show ?thesis using \<open>j = x\<close> by simp
      next
        case False
        then have "2 \<le> degree_of inDegree x" using a True by simp
        moreover have "degree_of inDegree x - 1 \<le> int (count_list xs x)" using a True by simp
        ultimately have "0 < count_list xs x" by linarith
        then have "x \<in> set xs" by (metis count_list_0_iff less_numeral_extra(3))
        then show ?thesis
          using p(3) True \<open>2 \<le> degree_of inDegree x\<close> \<open>degree_of inDegree x - 1 \<le> int (count_list xs x)\<close>
          by (simp add: degree_of_update)
      qed
    qed
  qed
  show ?case using q d s by blast
qed

lemma queue_inv_step:
  assumes "queue_inv K inDegree (c # queue) result"
    and "decrement_dependents xs (inDegree, queue) = (inDegree', queue')"
  shows "queue_inv K inDegree' queue' (result @ [c])"
proof -
  from decrement_dependents_queue[OF assms(2)] obtain pushed where
    p: "queue' = queue @ pushed" "distinct pushed"
       "set pushed = {j \<in> set xs. 1 \<le> degree_of inDegree j
                              \<and> degree_of inDegree j \<le> int (count_list xs j)}"
    by blast
  have deg: "\<And>j. degree_of inDegree' j \<le> degree_of inDegree j"
    using decrement_dependents_degree[OF assms(2)] by simp
  have old: "distinct (result @ c # queue)" "set (result @ c # queue) \<subseteq> K"
    "\<And>j. j \<in> set (result @ c # queue) \<or> j \<notin> K \<Longrightarrow> degree_of inDegree j \<le> 0"
    using assms(1) by (auto simp: queue_inv_def)
  have pos: "\<And>j. j \<in> set pushed \<Longrightarrow> 1 \<le> degree_of inDegree j" using p(3) by simp
  have new_K: "set pushed \<subseteq> K"
  proof
    fix j assume "j \<in> set pushed"
    then have "1 \<le> degree_of inDegree j" by (rule pos)
    then show "j \<in> K" using old(3)[of j] by force
  qed
  have disj: "set pushed \<inter> set (result @ c # queue) = {}"
  proof -
    { fix j assume "j \<in> set pushed" "j \<in> set (result @ c # queue)"
      then have False using pos[of j] old(3)[of j] by force }
    then show ?thesis by blast
  qed
  have zero: "\<And>j. j \<in> set pushed \<Longrightarrow> degree_of inDegree' j \<le> 0"
    using decrement_dependents_degree[OF assms(2)] p(3) by simp
  have 1: "distinct ((result @ [c]) @ queue')"
    using old(1) p(1,2) disj by auto
  have 2: "set ((result @ [c]) @ queue') \<subseteq> K"
    using old(2) p(1) new_K by auto
  have 3: "\<forall>j. j \<in> set ((result @ [c]) @ queue') \<or> j \<notin> K \<longrightarrow> degree_of inDegree' j \<le> 0"
  proof (intro allI impI)
    fix j assume a: "j \<in> set ((result @ [c]) @ queue') \<or> j \<notin> K"
    show "degree_of inDegree' j \<le> 0"
    proof (cases "j \<in> set pushed")
      case True
      then show ?thesis by (rule zero)
    next
      case False
      then have "j \<in> set (result @ c # queue) \<or> j \<notin> K" using a p(1) by auto
      then have "degree_of inDegree j \<le> 0" by (rule old(3))
      then show ?thesis using deg[of j] by linarith
    qed
  qed
  show ?thesis unfolding queue_inv_def using 1 2 3 by blast
qed

lemma process_queue_inv:
  "queue_inv K inDegree queue result \<Longrightarrow>
   distinct (process_queue adjList inDegree queue result)
   \<and> set (process_queue adjList inDegree queue result) \<subseteq> K"
proof (induction adjList inDegree queue result rule: process_queue.induct)
  case (1 adjList inDegree result)
  then show ?case by (simp add: queue_inv_def)
next
  case (2 adjList inDegree currentJob queue result)
  let ?xs = "case map_of adjList currentJob of None \<Rightarrow> [] | Some dependents \<Rightarrow> dependents"
  obtain inDegree' queue' where
    d: "decrement_dependents ?xs (inDegree, queue) = (inDegree', queue')"
    by (metis surj_pair)
  have "queue_inv K inDegree' queue' (result @ [currentJob])"
    using "2.prems" d by (rule queue_inv_step)
  then show ?case
    using "2.IH"[OF d[symmetric]] d by simp
qed

lemma init_graph_fold:
  "distinct keys \<Longrightarrow> set keys \<inter> fst ` set a = {} \<Longrightarrow> set keys \<inter> fst ` set b = {} \<Longrightarrow>
   fold (\<lambda>job_name (inDegree, adjList).
             (AList.update job_name (0::int) inDegree, AList.update job_name ([]::string list) adjList))
        keys (a, b)
     = (a @ map (\<lambda>k. (k, 0)) keys, b @ map (\<lambda>k. (k, [])) keys)"
proof (induction keys arbitrary: a b)
  case Nil
  then show ?case by simp
next
  case (Cons k keys)
  have ka: "k \<notin> fst ` set a" and kb: "k \<notin> fst ` set b" using Cons.prems by auto
  have ua: "AList.update k 0 a = a @ [(k, 0)]" using ka by (rule update_absent)
  have ub: "AList.update k [] b = b @ [(k, [])]" using kb by (rule update_absent)
  have "set keys \<inter> fst ` set (a @ [(k, 0)]) = {}" "set keys \<inter> fst ` set (b @ [(k, [])]) = {}"
    using Cons.prems by auto
  then show ?case
    using Cons.IH[of "a @ [(k, 0)]" "b @ [(k, [])]"] Cons.prems(1) ua ub by simp
qed

lemma init_graph_distinct:
  "distinct keys \<Longrightarrow> init_graph keys = (map (\<lambda>k. (k, 0)) keys, map (\<lambda>k. (k, [])) keys)"
  unfolding init_graph_def using init_graph_fold[of keys "[]" "[]"] by simp

lemma add_edges_inDegree:
  "add_edges j ds (inDegree, adjList) = (inDegree', adjList') \<Longrightarrow> j \<in> fst ` set inDegree \<Longrightarrow>
   map fst inDegree' = map fst inDegree
   \<and> (\<forall>k. degree_of inDegree' k = degree_of inDegree k + (if k = j then int (length ds) else 0))"
proof (induction ds arbitrary: inDegree adjList)
  case Nil
  then show ?case by simp
next
  case (Cons d ds)
  let ?al = "AList.update j (degree_of inDegree j + 1) inDegree"
  let ?adj = "case map_of adjList d of None \<Rightarrow> adjList
              | Some dependents \<Rightarrow> AList.update d (dependents @ [j]) adjList"
  have rec: "add_edges j ds (?al, ?adj) = (inDegree', adjList')" using Cons.prems(1) by simp
  have k: "map fst ?al = map fst inDegree" using Cons.prems(2) by (simp add: update_keys)
  then have "j \<in> fst ` set ?al" using Cons.prems(2) by (metis list.set_map)
  from Cons.IH[OF rec this] k show ?case by (simp add: degree_of_update)
qed

lemma build_graph_inDegree:
  "build_graph js (inDegree, adjList) = (inDegree', adjList') \<Longrightarrow>
   fst ` set js \<subseteq> fst ` set inDegree \<Longrightarrow> map fst inDegree' = map fst inDegree"
proof (induction js arbitrary: inDegree adjList)
  case Nil
  then show ?case by simp
next
  case (Cons p js)
  obtain j job where p: "p = (j, job)" by (cases p)
  let ?g = "case dependencies job of None \<Rightarrow> (inDegree, adjList)
            | Some deps \<Rightarrow> add_edges j deps (inDegree, adjList)"
  obtain inD1 adj1 where g: "?g = (inD1, adj1)" by (metis surj_pair)
  have rec: "build_graph js (inD1, adj1) = (inDegree', adjList')"
    using Cons.prems(1) p g by simp
  have j: "j \<in> fst ` set inDegree" using Cons.prems(2) p by simp
  have k1: "map fst inD1 = map fst inDegree"
    using g add_edges_inDegree[OF _ j] by (auto split: option.splits)
  then have "fst ` set js \<subseteq> fst ` set inD1"
    using Cons.prems(2) by (metis (no_types, lifting) list.set_map set_subset_Cons image_mono subset_trans)
  from Cons.IH[OF rec this] k1 show ?case by simp
qed

lemma seed_queue:
  assumes "distinct (map fst inDegree)"
  shows "distinct (map fst (filter (\<lambda>(job_name, degree). degree = 0) inDegree))"
    and "set (map fst (filter (\<lambda>(job_name, degree). degree = 0) inDegree)) \<subseteq> fst ` set inDegree"
    and "\<forall>j \<in> set (map fst (filter (\<lambda>(job_name, degree). degree = 0) inDegree)).
            degree_of inDegree j = 0"
proof -
  show "distinct (map fst (filter (\<lambda>(job_name, degree). degree = 0) inDegree))"
    using assms by (rule distinct_map_filter)
  show "set (map fst (filter (\<lambda>(job_name, degree). degree = 0) inDegree)) \<subseteq> fst ` set inDegree"
    by auto
  show "\<forall>j \<in> set (map fst (filter (\<lambda>(job_name, degree). degree = 0) inDegree)).
            degree_of inDegree j = 0"
  proof
    fix j assume "j \<in> set (map fst (filter (\<lambda>(job_name, degree). degree = 0) inDegree))"
    then have "(j, 0) \<in> set inDegree" by auto
    then have "map_of inDegree j = Some 0" using assms by (simp add: map_of_eq_Some_iff)
    then show "degree_of inDegree j = 0" by (simp add: degree_of_def)
  qed
qed

lemma resolveDependencies_distinct_subset:
  assumes "distinct (map fst (jobs s))"
  shows "distinct (resolveDependencies s) \<and> set (resolveDependencies s) \<subseteq> fst ` set (jobs s)"
proof -
  let ?keys = "map fst (jobs s)"
  obtain inDegree adjList where
    g: "build_graph (jobs s) (init_graph ?keys) = (inDegree, adjList)" by (metis surj_pair)
  have i: "init_graph ?keys = (map (\<lambda>k. (k, 0)) ?keys, map (\<lambda>k. (k, [])) ?keys)"
    using assms by (rule init_graph_distinct)
  have "fst ` set (jobs s) \<subseteq> fst ` set (map (\<lambda>k. (k, 0::int)) ?keys)" by force
  then have "map fst inDegree = map fst (map (\<lambda>k. (k, 0::int)) ?keys)"
    using g[unfolded i] by (intro build_graph_inDegree)
  then have keys: "map fst inDegree = ?keys" by (simp add: comp_def)
  let ?queue = "map fst (filter (\<lambda>(job_name, degree). degree = 0) inDegree)"
  have d: "distinct (map fst inDegree)" using keys assms by simp
  have none: "\<And>j. j \<notin> fst ` set (jobs s) \<Longrightarrow> degree_of inDegree j \<le> 0"
  proof -
    fix j assume "j \<notin> fst ` set (jobs s)"
    then have "j \<notin> fst ` set inDegree" using keys by (metis list.set_map)
    then have "map_of inDegree j = None" by (simp add: map_of_eq_None_iff)
    then show "degree_of inDegree j \<le> 0" by (simp add: degree_of_def)
  qed
  have "queue_inv (fst ` set (jobs s)) inDegree ?queue []"
    unfolding queue_inv_def
    using seed_queue[OF d] keys none
    by (metis append_Nil list.set_map order_refl)
  then show ?thesis
    using g process_queue_inv[of "fst ` set (jobs s)" inDegree ?queue "[]" adjList]
    by (simp add: resolveDependencies_def)
qed

lemma order_registered:
  "distinct (map fst (jobs s)) \<Longrightarrow> \<forall>n \<in> set (resolveDependencies s). map_of (jobs s) n \<noteq> None"
  using resolveDependencies_distinct_subset[of s] by (auto simp: map_of_eq_None_iff)

lemma resolveDependencies_isExecuting [simp]:
  "resolveDependencies (s\<lparr>isExecuting := b\<rparr>) = resolveDependencies s"
  by (simp add: resolveDependencies_def)

lemma build_graph_step:
  "(case dependencies job of None \<Rightarrow> g | Some deps \<Rightarrow> add_edges j deps g) = add_edges j (declared job) g"
  by (simp add: declared_def split: option.splits)

lemma add_edges_adjList:
  "add_edges j ds (inDegree, adjList) = (inDegree', adjList') \<Longrightarrow>
   map_of adjList' c = map_option (\<lambda>xs. xs @ replicate (count_list ds c) j) (map_of adjList c)"
proof (induction ds arbitrary: inDegree adjList)
  case Nil
  then show ?case by (simp add: option.map_ident)
next
  case (Cons d ds)
  let ?al = "AList.update j (degree_of inDegree j + 1) inDegree"
  let ?adj = "case map_of adjList d of None \<Rightarrow> adjList
              | Some dependents \<Rightarrow> AList.update d (dependents @ [j]) adjList"
  have rec: "add_edges j ds (?al, ?adj) = (inDegree', adjList')" using Cons.prems(1) by simp
  have one: "map_of ?adj c = map_option (\<lambda>xs. xs @ (if c = d then [j] else [])) (map_of adjList c)"
    by (cases "map_of adjList d"; cases "map_of adjList c") (auto simp: update_conv')
  have "map_of adjList' c = map_option (\<lambda>xs. xs @ replicate (count_list ds c) j) (map_of ?adj c)"
    using Cons.IH[OF rec] .
  also have "\<dots> = map_option (\<lambda>xs. xs @ replicate (count_list (d # ds) c) j) (map_of adjList c)"
    unfolding one by (cases "map_of adjList c") auto
  finally show ?case .
qed

lemma build_graph_adjList:
  "build_graph js (inDegree, adjList) = (inDegree', adjList') \<Longrightarrow>
   map_of adjList' c = map_option (\<lambda>xs. xs @ dependents_of js c) (map_of adjList c)"
proof (induction js arbitrary: inDegree adjList)
  case Nil
  then show ?case by (simp add: dependents_of_def option.map_ident)
next
  case (Cons p js)
  obtain j job where p: "p = (j, job)" by (cases p)
  obtain inD1 adj1 where g: "add_edges j (declared job) (inDegree, adjList) = (inD1, adj1)"
    by (metis surj_pair)
  have rec: "build_graph js (inD1, adj1) = (inDegree', adjList')"
    using Cons.prems(1) p g by (simp add: build_graph_step)
  have "map_of adjList' c = map_option (\<lambda>xs. xs @ dependents_of js c) (map_of adj1 c)"
    using Cons.IH[OF rec] .
  also have "\<dots> = map_option (\<lambda>xs. xs @ dependents_of (p # js) c) (map_of adjList c)"
    unfolding add_edges_adjList[OF g] p
    by (cases "map_of adjList c") (simp_all add: dependents_of_def)
  finally show ?case .
qed

lemma deps_of_Cons:
  "deps_of ((j, job) # js) k = (if k = j then declared job else deps_of js k)"
  by (simp add: deps_of_def declared_def)

lemma deps_of_unregistered: "k \<notin> fst ` set js \<Longrightarrow> deps_of js k = []"
  by (simp add: deps_of_def map_of_eq_None_iff[THEN iffD2])

lemma deps_of_declared: "map_of js n = Some job \<Longrightarrow> deps_of js n = declared job"
  by (simp add: deps_of_def declared_def)

lemma count_list_replicate: "count_list (replicate n x) y = (if x = y then n else 0)"
  by (induction n) auto

lemma count_dependents_unregistered:
  "k \<notin> fst ` set js \<Longrightarrow> count_list (dependents_of js c) k = 0"
  by (induction js) (auto simp: dependents_of_def count_list_replicate)

lemma count_dependents_of:
  "distinct (map fst js) \<Longrightarrow> count_list (dependents_of js c) k = count_list (deps_of js k) c"
proof (induction js)
  case Nil
  then show ?case by (simp add: dependents_of_def deps_of_def)
next
  case (Cons p js)
  obtain j job where p: "p = (j, job)" by (cases p)
  have d: "distinct (map fst js)" and nin: "j \<notin> fst ` set js" using Cons.prems p by auto
  have split: "count_list (dependents_of (p # js) c) k
                 = (if j = k then count_list (declared job) c else 0) + count_list (dependents_of js c) k"
    unfolding p by (simp add: dependents_of_def count_list_replicate)
  show ?case
  proof (cases "k = j")
    case True
    then show ?thesis
      using split count_dependents_unregistered[OF nin, of c] p by (simp add: deps_of_Cons)
  next
    case False
    then show ?thesis using split Cons.IH[OF d] p by (simp add: deps_of_Cons)
  qed
qed

lemma build_graph_degree:
  "build_graph js (inDegree, adjList) = (inDegree', adjList') \<Longrightarrow>
   distinct (map fst js) \<Longrightarrow> fst ` set js \<subseteq> fst ` set inDegree \<Longrightarrow>
   degree_of inDegree' k = degree_of inDegree k + int (length (deps_of js k))"
proof (induction js arbitrary: inDegree adjList)
  case Nil
  then show ?case by (simp add: deps_of_def)
next
  case (Cons p js)
  obtain j job where p: "p = (j, job)" by (cases p)
  obtain inD1 adj1 where g: "add_edges j (declared job) (inDegree, adjList) = (inD1, adj1)"
    by (metis surj_pair)
  have rec: "build_graph js (inD1, adj1) = (inDegree', adjList')"
    using Cons.prems(1) p g by (simp add: build_graph_step)
  have d: "distinct (map fst js)" and nin: "j \<notin> fst ` set js" using Cons.prems(2) p by auto
  have jin: "j \<in> fst ` set inDegree" using Cons.prems(3) p by simp
  have k1: "map fst inD1 = map fst inDegree"
    and d1: "degree_of inD1 k = degree_of inDegree k + (if k = j then int (length (declared job)) else 0)"
    using add_edges_inDegree[OF g jin] by simp_all
  have "fst ` set js \<subseteq> fst ` set inD1"
    using Cons.prems(3) k1 by (metis (no_types, lifting) list.set_map set_subset_Cons image_mono subset_trans)
  from Cons.IH[OF rec d this]
  have "degree_of inDegree' k = degree_of inD1 k + int (length (deps_of js k))" .
  then show ?case
    using d1 p deps_of_unregistered[OF nin] by (simp add: deps_of_Cons)
qed

lemma built_graph:
  assumes "distinct (map fst js)"
    and "build_graph js (init_graph (map fst js)) = (inDegree, adjList)"
  shows "map fst inDegree = map fst js"
    and "\<And>k. k \<in> fst ` set js \<Longrightarrow> degree_of inDegree k = int (length (deps_of js k))"
    and "\<And>c. c \<in> fst ` set js \<Longrightarrow> map_of adjList c = Some (dependents_of js c)"
proof -
  let ?keys = "map fst js"
  have i: "init_graph ?keys = (map (\<lambda>k. (k, 0)) ?keys, map (\<lambda>k. (k, [])) ?keys)"
    using assms(1) by (rule init_graph_distinct)
  have g: "build_graph js (map (\<lambda>k. (k, 0)) ?keys, map (\<lambda>k. (k, [])) ?keys) = (inDegree, adjList)"
    using assms(2) i by simp
  have sub: "fst ` set js \<subseteq> fst ` set (map (\<lambda>k. (k, 0::int)) ?keys)" by force
  have "map fst inDegree = map fst (map (\<lambda>k. (k, 0::int)) ?keys)"
    using g sub by (rule build_graph_inDegree)
  then show "map fst inDegree = map fst js" by (simp add: comp_def)
  show "\<And>k. k \<in> fst ` set js \<Longrightarrow> degree_of inDegree k = int (length (deps_of js k))"
  proof -
    fix k assume "k \<in> fst ` set js"
    then have "map_of (map (\<lambda>k. (k, 0::int)) ?keys) k = Some 0"
      by (intro map_of_is_SomeI) (auto simp: comp_def assms(1))
    then have "degree_of (map (\<lambda>k. (k, 0::int)) ?keys) k = 0" by (simp add: degree_of_def)
    then show "degree_of inDegree k = int (length (deps_of js k))"
      using build_graph_degree[OF g assms(1) sub, of k] by simp
  qed
  show "\<And>c. c \<in> fst ` set js \<Longrightarrow> map_of adjList c = Some (dependents_of js c)"
  proof -
    fix c assume "c \<in> fst ` set js"
    then have "map_of (map (\<lambda>k. (k, []::string list)) ?keys) c = Some []"
      by (intro map_of_is_SomeI) (auto simp: comp_def assms(1))
    then show "map_of adjList c = Some (dependents_of js c)"
      using build_graph_adjList[OF g, of c] by simp
  qed
qed

lemma filter_insert_count:
  "c \<notin> S \<Longrightarrow>
   int (length (filter (\<lambda>d. d \<notin> insert c S) ds))
     = int (length (filter (\<lambda>d. d \<notin> S) ds)) - int (count_list ds c)"
  by (induction ds) auto

lemma filter_empty_subset: "(length (filter (\<lambda>d. d \<notin> S) ds) = 0) = (set ds \<subseteq> S)"
  by (auto simp: filter_empty_conv)

lemma dependencies_first_snoc:
  assumes "dependencies_first js result" and "set (deps_of js c) \<subseteq> set result"
  shows "dependencies_first js (result @ [c])"
  unfolding dependencies_first_def
proof (intro allI impI ballI)
  fix i d
  assume i: "i < length (result @ [c])" and d: "d \<in> set (deps_of js ((result @ [c]) ! i))"
  have "\<exists>k<i. k < length result \<and> result ! k = d"
  proof (cases "i < length result")
    case True
    then have "d \<in> set (deps_of js (result ! i))" using d by (simp add: nth_append)
    with assms(1) True have "\<exists>k<i. result ! k = d"
      unfolding dependencies_first_def by blast
    then obtain k where k: "k < i" "result ! k = d" by blast
    then have "k < length result" using True by simp
    with k show ?thesis by blast
  next
    case False
    then have e: "i = length result" using i by simp
    then have "d \<in> set result" using d assms(2) by auto
    then obtain k where "k < length result" "result ! k = d" by (metis in_set_conv_nth)
    then show ?thesis using e by blast
  qed
  then obtain k where k: "k < i" "k < length result" "result ! k = d" by blast
  then have "(result @ [c]) ! k = d" by (simp add: nth_append)
  with k(1) show "\<exists>k<i. (result @ [c]) ! k = d" by blast
qed

lemma kahn_inv_step:
  assumes inv: "kahn_inv js inDegree (c # queue) result"
    and adj: "\<forall>j. count_list xs j = count_list (deps_of js j) c"
    and dec: "decrement_dependents xs (inDegree, queue) = (inDegree', queue')"
  shows "kahn_inv js inDegree' queue' (result @ [c])"
proof -
  let ?K = "fst ` set js"
  let ?left = "\<lambda>R j. int (length (filter (\<lambda>d. d \<notin> set R) (deps_of js j)))"
  have old: "distinct (result @ c # queue)" "set (result @ c # queue) \<subseteq> ?K"
    and deg: "\<And>j. j \<in> ?K \<Longrightarrow> degree_of inDegree j = ?left result j"
    and mem: "\<And>j. j \<in> ?K \<Longrightarrow> (j \<in> set (result @ c # queue)) = (set (deps_of js j) \<subseteq> set result)"
    and first: "dependencies_first js result"
    using inv by (auto simp: kahn_inv_def)
  have c: "c \<notin> set result" "c \<in> ?K" using old by auto
  from decrement_dependents_queue[OF dec] obtain pushed where
    p: "queue' = queue @ pushed" "distinct pushed"
       "set pushed = {j \<in> set xs. 1 \<le> degree_of inDegree j
                              \<and> degree_of inDegree j \<le> int (count_list xs j)}"
    by blast
  have xsK: "\<And>j. j \<in> set xs \<Longrightarrow> j \<in> ?K"
  proof (rule ccontr)
    fix j assume j: "j \<in> set xs" "j \<notin> ?K"
    then have "count_list (deps_of js j) c = 0" by (simp add: deps_of_unregistered)
    then have "count_list xs j = 0" using adj by simp
    then show False using j(1) by (simp add: count_list_0_iff)
  qed
  have deg': "\<And>j. j \<in> ?K \<Longrightarrow> degree_of inDegree' j = ?left (result @ [c]) j"
  proof -
    fix j assume j: "j \<in> ?K"
    have "degree_of inDegree' j = ?left result j - int (count_list (deps_of js j) c)"
      using decrement_dependents_degree[OF dec, of j] deg[OF j] adj by simp
    also have "\<dots> = int (length (filter (\<lambda>d. d \<notin> insert c (set result)) (deps_of js j)))"
      using filter_insert_count[OF c(1), of "deps_of js j"] by simp
    finally show "degree_of inDegree' j = ?left (result @ [c]) j" by simp
  qed
  have zero: "\<And>R j. (?left R j = 0) = (set (deps_of js j) \<subseteq> set R)"
    using filter_empty_subset by (metis of_nat_eq_0_iff)
  have pushed_iff: "\<And>j. j \<in> ?K \<Longrightarrow>
      (j \<in> set pushed) = (1 \<le> degree_of inDegree j \<and> degree_of inDegree' j = 0)"
  proof -
    fix j assume j: "j \<in> ?K"
    have d': "degree_of inDegree' j = degree_of inDegree j - int (count_list xs j)"
      using decrement_dependents_degree[OF dec, of j] .
    have nonneg: "0 \<le> degree_of inDegree' j" using deg'[OF j] by simp
    show "(j \<in> set pushed) = (1 \<le> degree_of inDegree j \<and> degree_of inDegree' j = 0)"
    proof
      assume "j \<in> set pushed"
      then show "1 \<le> degree_of inDegree j \<and> degree_of inDegree' j = 0"
        using p(3) d' nonneg by auto
    next
      assume a: "1 \<le> degree_of inDegree j \<and> degree_of inDegree' j = 0"
      then have "0 < count_list xs j" using d' by linarith
      then have "j \<in> set xs" by (metis count_list_0_iff less_numeral_extra(3))
      then show "j \<in> set pushed" using p(3) a d' by simp
    qed
  qed
  have pushedK: "set pushed \<subseteq> ?K" using p(3) xsK by auto
  have disj: "set pushed \<inter> set (result @ c # queue) = {}"
  proof -
    { fix j assume a: "j \<in> set pushed" "j \<in> set (result @ c # queue)"
      have j: "j \<in> ?K" using a(1) pushedK by auto
      have "set (deps_of js j) \<subseteq> set result" using mem[OF j] a(2) by simp
      then have "degree_of inDegree j = 0" using deg[OF j] zero[of result j] by simp
      then have False using pushed_iff[OF j] a(1) by simp }
    then show ?thesis by blast
  qed
  have 1: "distinct ((result @ [c]) @ queue')" using old(1) p(1,2) disj by auto
  have 2: "set ((result @ [c]) @ queue') \<subseteq> ?K" using old(2) p(1) pushedK by auto
  have 3: "\<forall>j \<in> ?K. degree_of inDegree' j = ?left (result @ [c]) j" using deg' by blast
  have 4: "\<forall>j \<in> ?K. (j \<in> set ((result @ [c]) @ queue')) = (set (deps_of js j) \<subseteq> set (result @ [c]))"
  proof
    fix j assume j: "j \<in> ?K"
    have d': "degree_of inDegree' j = degree_of inDegree j - int (count_list xs j)"
      using decrement_dependents_degree[OF dec, of j] .
    have n0: "0 \<le> degree_of inDegree j" "0 \<le> degree_of inDegree' j"
      using deg[OF j] deg'[OF j] by simp_all
    have a: "(j \<in> set (result @ c # queue)) = (degree_of inDegree j = 0)"
      using mem[OF j] deg[OF j] zero[of result j] by simp
    have b: "(set (deps_of js j) \<subseteq> set (result @ [c])) = (degree_of inDegree' j = 0)"
      using deg'[OF j] zero[of "result @ [c]" j] by simp
    have "(j \<in> set ((result @ [c]) @ queue')) = (j \<in> set (result @ c # queue) \<or> j \<in> set pushed)"
      using p(1) by auto
    also have "\<dots> = (degree_of inDegree' j = 0)"
      unfolding a pushed_iff[OF j] using d' n0 by auto
    finally show "(j \<in> set ((result @ [c]) @ queue')) = (set (deps_of js j) \<subseteq> set (result @ [c]))"
      using b by simp
  qed
  have "set (deps_of js c) \<subseteq> set result" using mem[OF c(2)] by simp
  then have 5: "dependencies_first js (result @ [c])"
    using first by (intro dependencies_first_snoc)
  show ?thesis unfolding kahn_inv_def using 1 2 3 4 5 by blast
qed

lemma process_queue_kahn_inv:
  "\<forall>c \<in> fst ` set js. \<exists>xs. map_of adjList c = Some xs
              \<and> (\<forall>j. count_list xs j = count_list (deps_of js j) c) \<Longrightarrow>
   kahn_inv js inDegree queue result \<Longrightarrow>
   \<exists>inDegree'. kahn_inv js inDegree' [] (process_queue adjList inDegree queue result)"
proof (induction adjList inDegree queue result rule: process_queue.induct)
  case (1 adjList inDegree result)
  then show ?case by auto
next
  case (2 adjList inDegree currentJob queue result)
  let ?xs = "case map_of adjList currentJob of None \<Rightarrow> [] | Some dependents \<Rightarrow> dependents"
  obtain inDegree' queue' where
    d: "decrement_dependents ?xs (inDegree, queue) = (inDegree', queue')"
    by (metis surj_pair)
  have "currentJob \<in> fst ` set js" using "2.prems"(2) by (auto simp: kahn_inv_def)
  then obtain xs where xs: "map_of adjList currentJob = Some xs"
    "\<forall>j. count_list xs j = count_list (deps_of js j) currentJob"
    using "2.prems"(1) by blast
  have "kahn_inv js inDegree' queue' (result @ [currentJob])"
    using "2.prems"(2) xs(2) d[unfolded xs(1), simplified] by (rule kahn_inv_step)
  then show ?case
    using "2.IH"[OF d[symmetric] "2.prems"(1)] d by simp
qed

lemma unfinished_jobs_cycle:
  assumes "finite U" and "U \<noteq> {}" and "\<forall>x \<in> U. \<exists>y \<in> U. (x, y) \<in> E"
  shows "\<exists>n. (n, n) \<in> E\<^sup>+"
proof (rule ccontr)
  assume "\<not> (\<exists>n. (n, n) \<in> E\<^sup>+)"
  then have ac: "acyclic E" by (simp add: acyclic_def)
  let ?R = "{(y, x). (x, y) \<in> E \<and> x \<in> U \<and> y \<in> U}"
  have "?R\<inverse> \<subseteq> E" by auto
  with ac have "acyclic (?R\<inverse>)" by (rule acyclic_subset)
  then have "acyclic ?R" by (simp only: acyclic_converse)
  moreover have "finite ?R"
  proof (rule finite_subset)
    show "?R \<subseteq> U \<times> U" by auto
    show "finite (U \<times> U)" using assms(1) by simp
  qed
  ultimately have "wf ?R" by (intro finite_acyclic_wf)
  moreover obtain u where "u \<in> U" using assms(2) by blast
  ultimately obtain z where z: "z \<in> U" "\<And>y. (y, z) \<in> ?R \<Longrightarrow> y \<notin> U"
    by (rule wfE_min) blast
  obtain y where "y \<in> U" "(z, y) \<in> E" using assms(3) z(1) by blast
  then have "(y, z) \<in> ?R" using z(1) by simp
  then show False using z(2) \<open>y \<in> U\<close> by blast
qed

lemma kahn_inv_complete:
  assumes inv: "kahn_inv js inDegree [] result"
    and reg: "deps_registered js" and ac: "\<not> cyclic js"
  shows "set result = fst ` set js"
proof -
  let ?K = "fst ` set js"
  let ?U = "?K - set result"
  have sub: "set result \<subseteq> ?K"
    and mem: "\<And>j. j \<in> ?K \<Longrightarrow> (j \<in> set result) = (set (deps_of js j) \<subseteq> set result)"
    using inv by (auto simp: kahn_inv_def)
  have "?U = {}"
  proof (rule ccontr)
    assume ne: "?U \<noteq> {}"
    have fin: "finite ?U" by simp
    have succ: "\<forall>x \<in> ?U. \<exists>y \<in> ?U. (x, y) \<in> edges js"
    proof
      fix x assume x: "x \<in> ?U"
      then have "\<not> set (deps_of js x) \<subseteq> set result" using mem[of x] by simp
      then obtain d where d: "d \<in> set (deps_of js x)" "d \<notin> set result" by blast
      have "d \<in> ?K" using reg x d(1) by (auto simp: deps_registered_def)
      then show "\<exists>y \<in> ?U. (x, y) \<in> edges js"
        using d by (auto simp: edges_def)
    qed
    from unfinished_jobs_cycle[OF fin ne succ] show False using ac by (simp add: cyclic_def)
  qed
  then show ?thesis using sub by blast
qed

lemma resolveDependencies_valid:
  assumes d: "distinct (map fst (jobs s))"
    and reg: "deps_registered (jobs s)" and ac: "\<not> cyclic (jobs s)"
  shows "distinct (resolveDependencies s)
       \<and> set (resolveDependencies s) = fst ` set (jobs s)
       \<and> dependencies_first (jobs s) (resolveDependencies s)"
proof -
  let ?js = "jobs s"
  let ?K = "fst ` set ?js"
  obtain inDegree adjList where
    g: "build_graph ?js (init_graph (map fst ?js)) = (inDegree, adjList)" by (metis surj_pair)
  note G = built_graph[OF d g]
  let ?queue = "map fst (filter (\<lambda>(job_name, degree). degree = 0) inDegree)"
  have dk: "distinct (map fst inDegree)" using G(1) d by simp
  have seeds: "\<And>j. j \<in> ?K \<Longrightarrow> (j \<in> set ?queue) = (degree_of inDegree j = 0)"
  proof -
    fix j assume "j \<in> ?K"
    then have "j \<in> fst ` set inDegree" using G(1) by (metis list.set_map)
    then obtain v where v: "(j, v) \<in> set inDegree" by auto
    then have m: "map_of inDegree j = Some v" using dk by (simp add: map_of_eq_Some_iff)
    have "(j \<in> set ?queue) = ((j, 0) \<in> set inDegree)" by force
    also have "\<dots> = (map_of inDegree j = Some 0)" using dk by (simp add: map_of_eq_Some_iff)
    also have "\<dots> = (degree_of inDegree j = 0)" using m by (simp add: degree_of_def)
    finally show "(j \<in> set ?queue) = (degree_of inDegree j = 0)" .
  qed
  have q: "distinct ?queue" "set ?queue \<subseteq> ?K"
    using seed_queue(1,2)[OF dk] G(1) by (simp, metis list.set_map)
  have init: "kahn_inv ?js inDegree ?queue []"
    unfolding kahn_inv_def
  proof (intro conjI)
    show "distinct ([] @ ?queue)" using q(1) by simp
    show "set ([] @ ?queue) \<subseteq> ?K" using q(2) by simp
    show "\<forall>j \<in> ?K. degree_of inDegree j
            = int (length (filter (\<lambda>d. d \<notin> set []) (deps_of ?js j)))"
      using G(2) by simp
    show "\<forall>j \<in> ?K. (j \<in> set ([] @ ?queue)) = (set (deps_of ?js j) \<subseteq> set [])"
      using seeds G(2) by simp
    show "dependencies_first ?js []" by (simp add: dependencies_first_def)
  qed
  have adj: "\<forall>c \<in> ?K. \<exists>xs. map_of adjList c = Some xs
              \<and> (\<forall>j. count_list xs j = count_list (deps_of ?js j) c)"
    using G(3) count_dependents_of[OF d] by blast
  from process_queue_kahn_inv[OF adj init] obtain inDegree' where
    fin: "kahn_inv ?js inDegree' [] (process_queue adjList inDegree ?queue [])" by blast
  have r: "resolveDependencies s = process_queue adjList inDegree ?queue []"
    using g by (simp add: resolveDependencies_def)
  have "set (resolveDependencies s) = ?K"
    unfolding r using fin reg ac by (rule kahn_inv_complete)
  moreover have "distinct (resolveDependencies s)" "dependencies_first ?js (resolveDependencies s)"
    unfolding r using fin by (simp_all add: kahn_inv_def)
  ultimately show ?thesis by blast
qed

subsection \<open>The execution round\<close>

text \<open>
  As long as no awaited \<^verbatim>\<open>executeJob\<close> rejects, the loop keeps \<^verbatim>\<open>completedJobs\<close> equal
  to the names of the successful results so far, adds one result per registered name
  of the order, and calls \<^verbatim>\<open>execute()\<close> for exactly the results with
  \<open>dependenciesMet = Some True\<close>.
\<close>

lemma succeeded_simps [simp]:
  "succeeded [] = {}"
  "succeeded (rs @ [r]) = (if success r then (case jobName r of None \<Rightarrow> succeeded rs | Some n \<Rightarrow> insert n (succeeded rs)) else succeeded rs)"
  by (auto simp: succeeded_def map_filter_def split: option.splits)

lemma executed_names_simps [simp]:
  "executed_names [] = []"
  "executed_names (xs @ ys) = executed_names xs @ executed_names ys"
  by (simp_all add: executed_names_def map_filter_def)

lemma check_dependencies_find:
  "check_dependencies deps completed =
     (case find (\<lambda>d. d \<notin> completed) deps of
        None \<Rightarrow> (True, [])
      | Some d \<Rightarrow> (False, ''Dependency failed or was skipped: '' @ d))"
  by (induction deps) auto

lemma executeJob_invoked:
  "map_of (jobs s) n \<noteq> None \<Longrightarrow> invoked (snd (executeJob now s n rt)) = invoked rt @ [n]"
  by (auto simp: executeJob_def Let_def split: option.splits prod.splits sum.splits)

lemma run_job_registered:
  assumes "map_of (jobs s) n = Some job"
  shows "run_job now s n (rs, completed, rt) =
     (case find (\<lambda>d. d \<notin> completed) (declared job) of
        Some d \<Rightarrow> Inr (rs @ [skipped n d], completed, rt)
      | None \<Rightarrow>
          (case executeJob now s n rt of
             (Inl e, rt') \<Rightarrow> Inl (e, rt')
           | (Inr r, rt') \<Rightarrow>
               Inr (rs @ [r\<lparr>jobName := Some n, dependenciesMet := Some True\<rparr>],
                    if success r then insert n completed else completed,
                    rt')))"
  using assms
  by (simp add: run_job_def declared_def check_dependencies_find skipped_def
           split: option.splits prod.splits sum.splits)

lemma run_jobs_append:
  "run_jobs now s (xs @ ys) st =
     (case run_jobs now s xs st of
        Inl rejection \<Rightarrow> Inl rejection
      | Inr st' \<Rightarrow> run_jobs now s ys st')"
  by (induction xs arbitrary: st) (simp_all split: sum.splits)

lemma run_job_step:
  assumes "map_of (jobs s) n = Some job"
    and "run_job now s n (rs, succeeded rs, rt) = Inr (rs', completed', rt')"
  shows "\<exists>r. rs' = rs @ [r] \<and> completed' = succeeded (rs @ [r]) \<and> jobName r = Some n
           \<and> invoked rt' = invoked rt @ executed_names [r]"
proof (cases "find (\<lambda>d. d \<notin> succeeded rs) (declared job)")
  case (Some d)
  then have "run_job now s n (rs, succeeded rs, rt) = Inr (rs @ [skipped n d], succeeded rs, rt)"
    using assms(1) by (simp add: run_job_registered)
  then have eq: "rs' = rs @ [skipped n d]" "completed' = succeeded rs" "rt' = rt"
    using assms(2) by simp_all
  show ?thesis
    unfolding eq
    by (intro exI[of _ "skipped n d"])
       (simp add: skipped_def executed_names_def map_filter_def)
next
  case None
  obtain out rt1 where e: "executeJob now s n rt = (out, rt1)"
    by (cases "executeJob now s n rt")
  have "map_of (jobs s) n \<noteq> None" using assms by simp
  then have inv: "invoked rt1 = invoked rt @ [n]"
    using executeJob_invoked[of s n now rt] e by simp
  show ?thesis
  proof (cases out)
    case (Inl t)
    then show ?thesis using assms None e by (simp add: run_job_registered)
  next
    case (Inr r)
    let ?r = "r\<lparr>jobName := Some n, dependenciesMet := Some True\<rparr>"
    have "run_job now s n (rs, succeeded rs, rt)
            = Inr (rs @ [?r], if success r then insert n (succeeded rs) else succeeded rs, rt1)"
      using assms(1) None e Inr by (simp add: run_job_registered)
    then have eq: "rs' = rs @ [?r]"
      "completed' = (if success r then insert n (succeeded rs) else succeeded rs)" "rt' = rt1"
      using assms(2) by simp_all
    show ?thesis
      unfolding eq
      using inv
      by (intro exI[of _ ?r]) (simp add: executed_names_def map_filter_def)
  qed
qed

lemma run_jobs_results:
  assumes "\<forall>n \<in> set order. map_of (jobs s) n \<noteq> None"
    and "run_jobs now s order (rs, succeeded rs, rt) = Inr (rs', completed', rt')"
  shows "\<exists>new. rs' = rs @ new \<and> completed' = succeeded (rs @ new)
           \<and> map jobName new = map Some order
           \<and> invoked rt' = invoked rt @ executed_names new"
  using assms
proof (induction order arbitrary: rs rt)
  case Nil
  then show ?case by auto
next
  case (Cons n order)
  obtain job where job: "map_of (jobs s) n = Some job" using Cons.prems(1) by auto
  obtain st1 where
    one: "run_job now s n (rs, succeeded rs, rt) = Inr st1"
    and rest: "run_jobs now s order st1 = Inr (rs', completed', rt')"
    using Cons.prems(2) by (auto split: sum.splits)
  obtain rs1 c1 rt1 where st1: "st1 = (rs1, c1, rt1)" by (metis prod_cases3)
  from run_job_step[OF job one[unfolded st1]] obtain r where
    r: "rs1 = rs @ [r]" "c1 = succeeded (rs @ [r])" "jobName r = Some n"
       "invoked rt1 = invoked rt @ executed_names [r]"
    by blast
  have reg: "\<forall>n \<in> set order. map_of (jobs s) n \<noteq> None" using Cons.prems(1) by simp
  have "run_jobs now s order (rs @ [r], succeeded (rs @ [r]), rt1) = Inr (rs', completed', rt')"
    using rest st1 r(1,2) by simp
  from Cons.IH[OF reg this] obtain new where
    n: "rs' = (rs @ [r]) @ new" "completed' = succeeded ((rs @ [r]) @ new)"
       "map jobName new = map Some order" "invoked rt' = invoked rt1 @ executed_names new"
    by blast
  have "rs' = rs @ (r # new)" using n(1) by simp
  moreover have "completed' = succeeded (rs @ (r # new))" using n(2) by simp
  moreover have "map jobName (r # new) = map Some (n # order)" using r(3) n(3) by simp
  moreover have "invoked rt' = invoked rt @ executed_names (r # new)"
    using r(4) n(4) executed_names_simps(2)[of "[r]" new] by simp
  ultimately show ?case by blast
qed

lemma round_names:
  assumes "\<forall>n \<in> set order. map_of (jobs s) n \<noteq> None"
    and "run_jobs now s order ([], {}, rt) = Inr (rs, completed, rt')"
  shows "map jobName rs = map Some order \<and> length rs = length order
       \<and> completed = succeeded rs \<and> invoked rt' = invoked rt @ executed_names rs"
proof -
  have "run_jobs now s order ([], succeeded [], rt) = Inr (rs, completed, rt')"
    using assms(2) by simp
  from run_jobs_results[OF assms(1) this]
  have n: "map jobName rs = map Some order" "completed = succeeded rs"
       "invoked rt' = invoked rt @ executed_names rs"
    by auto
  have "length rs = length order" using n(1) by (metis length_map)
  with n show ?thesis by simp
qed

lemma round_split:
  assumes reg: "\<forall>n \<in> set order. map_of (jobs s) n \<noteq> None"
    and run: "run_jobs now s order ([], {}, rt) = Inr (rs, completed, rt')"
    and i: "i < length order"
  shows "\<exists>rt1 completed2 rt2.
           run_jobs now s (take i order) ([], {}, rt) = Inr (take i rs, succeeded (take i rs), rt1)
         \<and> run_job now s (order ! i) (take i rs, succeeded (take i rs), rt1)
             = Inr (take (Suc i) rs, completed2, rt2)"
proof -
  let ?pre = "take i order" and ?n = "order ! i" and ?post = "drop (Suc i) order"
  have split: "order = ?pre @ ?n # ?post" using i by (rule id_take_nth_drop)
  have reg1: "\<forall>n \<in> set ?pre. map_of (jobs s) n \<noteq> None"
    using reg by (meson in_set_takeD)
  have reg2: "\<forall>n \<in> set ?post. map_of (jobs s) n \<noteq> None"
    using reg by (meson in_set_dropD)
  obtain job where job: "map_of (jobs s) ?n = Some job"
    using reg i by (metis nth_mem not_Some_eq)
  have whole: "run_jobs now s (?pre @ ?n # ?post) ([], {}, rt) = Inr (rs, completed, rt')"
    using run split by simp
  obtain st1 where
    pre: "run_jobs now s ?pre ([], {}, rt) = Inr st1"
    and tail: "run_jobs now s (?n # ?post) st1 = Inr (rs, completed, rt')"
    using whole unfolding run_jobs_append by (auto split: sum.splits)
  obtain new1 c1 rt1 where st1: "st1 = (new1, c1, rt1)" by (metis prod_cases3)
  from round_names[OF reg1 pre[unfolded st1]]
  have p: "map jobName new1 = map Some ?pre" "c1 = succeeded new1" by simp_all
  have len1: "length new1 = i"
    using p(1) i by (metis length_map length_take min.absorb2 less_imp_le_nat)
  obtain st2 where
    one: "run_job now s ?n (new1, succeeded new1, rt1) = Inr st2"
    and post: "run_jobs now s ?post st2 = Inr (rs, completed, rt')"
    using tail st1 p(2) by (auto split: sum.splits)
  obtain rs2 c2 rt2 where st2: "st2 = (rs2, c2, rt2)" by (metis prod_cases3)
  from run_job_step[OF job one[unfolded st2]] obtain r where
    r: "rs2 = new1 @ [r]" "c2 = succeeded (new1 @ [r])"
    by blast
  have "run_jobs now s ?post (new1 @ [r], succeeded (new1 @ [r]), rt2) = Inr (rs, completed, rt')"
    using post st2 r by simp
  from run_jobs_results[OF reg2 this] obtain new2 where rs: "rs = (new1 @ [r]) @ new2"
    by blast
  have t: "take i rs = new1" using rs len1 by simp
  have t': "take (Suc i) rs = new1 @ [r]" using rs len1 by simp
  show ?thesis using pre st1 p(2) one st2 r(1) t t' by auto
qed

lemma round_skipped:
  assumes reg: "\<forall>n \<in> set order. map_of (jobs s) n \<noteq> None"
    and run: "run_jobs now s order ([], {}, rt) = Inr (rs, completed, rt')"
    and i: "i < length order"
    and job: "map_of (jobs s) (order ! i) = Some job"
    and f: "find (\<lambda>d. d \<notin> succeeded (take i rs)) (declared job) = Some d"
  shows "rs ! i = skipped (order ! i) d"
proof -
  from round_split[OF reg run i] obtain rt1 completed2 rt2 where
    r: "run_job now s (order ! i) (take i rs, succeeded (take i rs), rt1)
          = Inr (take (Suc i) rs, completed2, rt2)"
    by blast
  have len: "length rs = length order" using round_names[OF reg run] by simp
  have "take (Suc i) rs = take i rs @ [skipped (order ! i) d]"
    using r f by (simp add: run_job_registered[OF job])
  moreover have "take (Suc i) rs = take i rs @ [rs ! i]"
    using i len by (simp add: take_Suc_conv_app_nth)
  ultimately show ?thesis by simp
qed

lemma round_not_invoked:
  assumes reg: "\<forall>n \<in> set order. map_of (jobs s) n \<noteq> None"
    and run: "run_jobs now s order ([], {}, rt) = Inr (rs, completed, rt')"
    and d: "distinct order"
    and i: "i < length order"
    and skip: "dependenciesMet (rs ! i) \<noteq> Some True"
  shows "invoked rt' = invoked rt @ executed_names rs \<and> order ! i \<notin> set (executed_names rs)"
proof -
  from round_names[OF reg run]
  have names: "map jobName rs = map Some order" and len: "length rs = length order"
    and inv: "invoked rt' = invoked rt @ executed_names rs"
    by simp_all
  have "order ! i \<notin> set (executed_names rs)"
  proof
    assume "order ! i \<in> set (executed_names rs)"
    then obtain r where r: "r \<in> set rs" "dependenciesMet r = Some True" "jobName r = Some (order ! i)"
      by (auto simp: executed_names_def map_filter_def split: if_splits)
    then obtain k where k: "k < length rs" "rs ! k = r" by (metis in_set_conv_nth)
    have "map jobName rs ! k = Some (order ! k)" using names k(1) len by simp
    then have "order ! k = order ! i" using k r(3) by simp
    then have "k = i" using d i k(1) len by (simp add: nth_eq_iff_index_eq)
    then show False using skip k(2) r(2) by simp
  qed
  with inv show ?thesis by simp
qed

lemma executeJob_isExecuting [simp]:
  "executeJob now (s\<lparr>isExecuting := b\<rparr>) n rt = executeJob now s n rt"
  by (simp add: executeJob_def)

lemma run_job_isExecuting [simp]:
  "run_job now (s\<lparr>isExecuting := b\<rparr>) n st = run_job now s n st"
  by (cases st) (simp add: run_job_def split: option.splits prod.splits)

lemma run_jobs_isExecuting [simp]:
  "run_jobs now (s\<lparr>isExecuting := b\<rparr>) order st = run_jobs now s order st"
  by (induction order arbitrary: st) (simp_all split: sum.splits)

lemma executeJobsWithDependencies_idle:
  "\<not> isExecuting s \<Longrightarrow>
   executeJobsWithDependencies now s rt =
     (case run_jobs now s (resolveDependencies s) ([], {}, rt) of
        Inl (e, rt') \<Rightarrow> (Inl e, s, rt')
      | Inr (rs, completed, rt') \<Rightarrow> (Inr rs, s, rt'))"
  by (simp add: executeJobsWithDependencies_def Let_def split: sum.splits prod.splits)

text \<open>
  What the \<^verbatim>\<open>catch\<close> of \<^verbatim>\<open>executeJob\<close> makes of a thrown value: an \<^verbatim>\<open>Error\<close> is attached
  as it is, any other value that has a rendering is wrapped in a new \<^verbatim>\<open>Error\<close> of that
  rendering, and for a value without one the promise is rejected with what the
  conversion throws. A round in which no job throws such a value returns its list, and
  records the error of a job that throws; a round in which a job whose dependencies
  are met throws such a value is rejected with what the conversion throws.
\<close>

lemma executeJob_catch:
  assumes "map_of (jobs s) n = Some job" and "execute job (world rt) = (Inl e, w')"
  shows "executeJob now s n rt =
     ((case e of
         ErrorObject msg \<Rightarrow>
           Inr \<lparr>success = False, message = None, error = Some (ErrorObject msg),
                executionTime = now w' - now (world rt), jobName = None,
                dependenciesMet = None, skippedReason = None\<rparr>
       | NonError rendering \<Rightarrow>
           Inr \<lparr>success = False, message = None, error = Some (ErrorObject rendering),
                executionTime = now w' - now (world rt), jobName = None,
                dependenciesMet = None, skippedReason = None\<rparr>
       | NoString conversionError \<Rightarrow> Inl conversionError),
      \<lparr>world = w', invoked = invoked rt @ [n]\<rparr>)"
  using assms by (cases e) (simp_all add: executeJob_def Let_def)

lemma run_job_returns:
  assumes "\<And>job w t w'. map_of (jobs s) n = Some job \<Longrightarrow> execute job w \<noteq> (Inl (NoString t), w')"
  shows "\<exists>st'. run_job now s n st = Inr st'"
proof (cases "map_of (jobs s) n")
  case None
  then show ?thesis by (cases st) (simp add: run_job_def)
next
  case (Some job)
  obtain rs completed rt where st: "st = (rs, completed, rt)" by (metis prod_cases3)
  obtain outcome w' where x: "execute job (world rt) = (outcome, w')"
    by (cases "execute job (world rt)")
  have "\<exists>r rt'. executeJob now s n rt = (Inr r, rt')"
  proof (cases outcome)
    case (Inr u)
    then show ?thesis using Some x by (simp add: executeJob_def Let_def)
  next
    case (Inl e)
    have "\<And>t. e \<noteq> NoString t" using assms[OF Some, of "world rt" _ w'] x Inl by auto
    then show ?thesis
      using executeJob_catch[OF Some x[unfolded Inl], of now] by (cases e) auto
  qed
  then show ?thesis
    unfolding st run_job_registered[OF Some] by (auto split: option.splits)
qed

lemma run_jobs_returns:
  assumes "\<And>n job w t w'. n \<in> set order \<Longrightarrow> map_of (jobs s) n = Some job
             \<Longrightarrow> execute job w \<noteq> (Inl (NoString t), w')"
  shows "\<exists>st'. run_jobs now s order st = Inr st'"
  using assms
proof (induction order arbitrary: st)
  case Nil
  show ?case by (intro exI[of _ st]) simp
next
  case (Cons n order)
  have "\<exists>st'. run_job now s n st = Inr st'"
    by (rule run_job_returns) (rule Cons.prems, simp_all)
  then obtain st1 where one: "run_job now s n st = Inr st1" by blast
  have "\<exists>st'. run_jobs now s order st1 = Inr st'"
    by (rule Cons.IH) (rule Cons.prems, simp_all)
  then show ?case using one by simp
qed

lemma round_returns:
  assumes "\<And>n job w t w'. map_of (jobs s) n = Some job
             \<Longrightarrow> execute job w \<noteq> (Inl (NoString t), w')"
  shows "\<exists>rs. fst (executeJobsWithDependencies now s rt) = Inr rs"
proof (cases "isExecuting s")
  case True
  then show ?thesis by (simp add: executeJobsWithDependencies_def)
next
  case False
  have "\<exists>st'. run_jobs now s (resolveDependencies s) ([], {}, rt) = Inr st'"
    by (rule run_jobs_returns) (rule assms)
  then obtain rs completed rt' where
    "run_jobs now s (resolveDependencies s) ([], {}, rt) = Inr (rs, completed, rt')"
    by (metis prod_cases3)
  then show ?thesis
    using False by (simp add: executeJobsWithDependencies_idle)
qed

lemma thrown_error_recorded:
  assumes "\<not> isExecuting s" and "distinct (map fst (jobs s))"
    and "executeJobsWithDependencies now s rt = (Inr rs, s', rt')"
    and "i < length (resolveDependencies s)"
    and "map_of (jobs s) (resolveDependencies s ! i) = Some job"
    and "find (\<lambda>depName. depName \<notin> succeeded (take i rs)) (declared job) = None"
    and "\<And>w. fst (execute job w) = Inl e"
  shows "(\<exists>msg. (e = ErrorObject msg \<or> e = NonError msg)
                 \<and> error (rs ! i) = Some (ErrorObject msg))
       \<and> \<not> success (rs ! i)
       \<and> jobName (rs ! i) = Some (resolveDependencies s ! i)
       \<and> dependenciesMet (rs ! i) = Some True
       \<and> map jobName rs = map Some (resolveDependencies s)
       \<and> \<not> isExecuting s'"
proof -
  let ?order = "resolveDependencies s"
  have reg: "\<forall>n \<in> set ?order. map_of (jobs s) n \<noteq> None"
    using assms(2) by (rule order_registered)
  obtain completed where run: "run_jobs now s ?order ([], {}, rt) = Inr (rs, completed, rt')"
    and s': "s' = s"
    using assms(1,3) by (auto simp: executeJobsWithDependencies_idle split: sum.splits prod.splits)
  have names: "map jobName rs = map Some ?order" and len: "length rs = length ?order"
    using round_names[OF reg run] by simp_all
  from round_split[OF reg run assms(4)] obtain rt1 completed2 rt2 where
    r: "run_job now s (?order ! i) (take i rs, succeeded (take i rs), rt1)
          = Inr (take (Suc i) rs, completed2, rt2)"
    by blast
  obtain w' where x: "execute job (world rt1) = (Inl e, w')"
    using assms(7)[of "world rt1"] by (cases "execute job (world rt1)") simp
  note c = executeJob_catch[OF assms(5) x, of now]
  have last: "take (Suc i) rs = take i rs @ [rs ! i]"
    using assms(4) len by (simp add: take_Suc_conv_app_nth)
  have entry: "(\<exists>msg. (e = ErrorObject msg \<or> e = NonError msg)
                 \<and> error (rs ! i) = Some (ErrorObject msg))
       \<and> \<not> success (rs ! i) \<and> jobName (rs ! i) = Some (?order ! i)
       \<and> dependenciesMet (rs ! i) = Some True"
  proof (cases e)
    case (ErrorObject msg)
    then have "take (Suc i) rs = take i rs @
        [\<lparr>success = False, message = None, error = Some (ErrorObject msg),
          executionTime = now w' - now (world rt1), jobName = Some (?order ! i),
          dependenciesMet = Some True, skippedReason = None\<rparr>]"
      using r c assms(6) by (simp add: run_job_registered[OF assms(5)])
    then show ?thesis using last ErrorObject by simp
  next
    case (NonError msg)
    then have "take (Suc i) rs = take i rs @
        [\<lparr>success = False, message = None, error = Some (ErrorObject msg),
          executionTime = now w' - now (world rt1), jobName = Some (?order ! i),
          dependenciesMet = Some True, skippedReason = None\<rparr>]"
      using r c assms(6) by (simp add: run_job_registered[OF assms(5)])
    then show ?thesis using last NonError by simp
  next
    case (NoString t)
    then show ?thesis
      using r c assms(6) by (simp add: run_job_registered[OF assms(5)])
  qed
  show ?thesis using entry names s' assms(1) by simp
qed

lemma round_rejects:
  assumes "\<not> isExecuting s" and "i < length (resolveDependencies s)"
    and "run_jobs now s (take i (resolveDependencies s)) ([], {}, rt) = Inr (rs0, completed0, rt0)"
    and "map_of (jobs s) (resolveDependencies s ! i) = Some job"
    and "find (\<lambda>depName. depName \<notin> completed0) (declared job) = None"
    and "execute job (world rt0) = (Inl (NoString t), w')"
  shows "executeJobsWithDependencies now s rt =
           (Inl t, s, \<lparr>world = w', invoked = invoked rt0 @ [resolveDependencies s ! i]\<rparr>)"
proof -
  let ?order = "resolveDependencies s"
  have split: "?order = take i ?order @ ?order ! i # drop (Suc i) ?order"
    using assms(2) by (rule id_take_nth_drop)
  have "run_job now s (?order ! i) (rs0, completed0, rt0)
          = Inl (t, \<lparr>world = w', invoked = invoked rt0 @ [?order ! i]\<rparr>)"
    using assms(5) executeJob_catch[OF assms(4,6), of now]
    by (simp add: run_job_registered[OF assms(4)])
  then have "run_jobs now s (take i ?order @ ?order ! i # drop (Suc i) ?order) ([], {}, rt)
          = Inl (t, \<lparr>world = w', invoked = invoked rt0 @ [?order ! i]\<rparr>)"
    using assms(3) by (simp add: run_jobs_append)
  then have "run_jobs now s ?order ([], {}, rt)
          = Inl (t, \<lparr>world = w', invoked = invoked rt0 @ [?order ! i]\<rparr>)"
    using split by simp
  then show ?thesis using assms(1) by (simp add: executeJobsWithDependencies_idle)
qed

subsection \<open>Rounds suspended at an await\<close>

text \<open>
  The flag is set exactly while an invocation is suspended, and there is never more
  than one. A trigger that fires and a round that is resumed until it returns or
  throws, with nothing in between, end as the uninterrupted call says.
\<close>

lemma guard_inv_step:
  assumes "guard_inv p"
  shows "guard_inv (step cron_validate now e p)"
proof (cases e)
  case Invoke
  then show ?thesis using assms by (auto simp: guard_inv_def Let_def)
next
  case (Resume i)
  show ?thesis
  proof (cases "i < length (inflight p)")
    case False
    then show ?thesis using assms Resume by simp
  next
    case True
    then have i: "i = 0" and one: "length (inflight p) = 1"
      using assms by (auto simp: guard_inv_def)
    obtain rem rs completed where x: "inflight p ! 0 = (rem, rs, completed)"
      by (metis prod_cases3)
    show ?thesis
    proof (cases rem)
      case Nil
      then show ?thesis
        using Resume i one x by (simp add: guard_inv_def)
    next
      case (Cons n rest)
      show ?thesis
      proof (cases "run_job now (scheduler p) n (rs, completed, environment p)")
        case (Inl rejection)
        obtain t rt' where "rejection = (t, rt')" by (cases rejection)
        then show ?thesis
          using Resume i one x Cons Inl by (simp add: guard_inv_def)
      next
        case (Inr st')
        obtain rs' completed' rt' where "st' = (rs', completed', rt')" by (metis prod_cases3)
        then show ?thesis
          using Resume i one x Cons Inr assms by (simp add: guard_inv_def)
      qed
    qed
  qed
next
  case (Call c)
  then show ?thesis using assms by (simp add: guard_inv_def isExecuting_apply_call)
qed

lemma guard_inv_run:
  "guard_inv p \<Longrightarrow> guard_inv (run cron_validate now events p)"
  by (induction events arbitrary: p) (simp_all add: guard_inv_step)

lemma run_append:
  "run cron_validate now (xs @ ys) p = run cron_validate now ys (run cron_validate now xs p)"
  by (induction xs arbitrary: p) simp_all

lemma resume_idle:
  "inflight p = [] \<Longrightarrow> run cron_validate now (replicate k (Resume 0)) p = p"
  by (induction k) simp_all

lemma resume_all:
  "inflight p = [(rem, rs, completed)] \<Longrightarrow>
   run cron_validate now (replicate (length rem) (Resume 0)) p =
     (case run_jobs now (scheduler p) rem (rs, completed, environment p) of
        Inl (t, rt') \<Rightarrow>
          p\<lparr>scheduler := (scheduler p)\<lparr>isExecuting := False\<rparr>, environment := rt',
            inflight := [], returned := returned p @ [Inl t]\<rparr>
      | Inr (rs', completed', rt') \<Rightarrow>
          p\<lparr>environment := rt', inflight := [([], rs', completed')]\<rparr>)"
proof (induction rem arbitrary: p rs completed)
  case Nil
  then show ?case by simp
next
  case (Cons n rest)
  show ?case
  proof (cases "run_job now (scheduler p) n (rs, completed, environment p)")
    case (Inl rejection)
    obtain t rt1 where rej: "rejection = (t, rt1)" by (cases rejection)
    let ?p1 = "p\<lparr>scheduler := (scheduler p)\<lparr>isExecuting := False\<rparr>, environment := rt1,
                  inflight := [], returned := returned p @ [Inl t]\<rparr>"
    have s1: "step cron_validate now (Resume 0) p = ?p1" using Cons.prems Inl rej by simp
    have "run cron_validate now (replicate (length rest) (Resume 0)) ?p1 = ?p1"
      by (rule resume_idle) simp
    then show ?thesis using s1 Inl rej by simp
  next
    case (Inr st1)
    obtain rs1 completed1 rt1 where st1: "st1 = (rs1, completed1, rt1)" by (metis prod_cases3)
    let ?p1 = "p\<lparr>environment := rt1, inflight := [(rest, rs1, completed1)]\<rparr>"
    have s1: "step cron_validate now (Resume 0) p = ?p1" using Cons.prems Inr st1 by simp
    have "inflight ?p1 = [(rest, rs1, completed1)]" by simp
    from Cons.IH[OF this] s1 Inr st1 show ?thesis by (simp split: sum.splits prod.splits)
  qed
qed

lemma uninterrupted_round:
  assumes "inflight p = []" and "\<not> isExecuting (scheduler p)"
  shows "run cron_validate now
           (Invoke # replicate (length (resolveDependencies (scheduler p))) (Resume 0) @ [Resume 0]) p =
         (case executeJobsWithDependencies now (scheduler p) (environment p) of
            (outcome, s', rt') \<Rightarrow>
              p\<lparr>scheduler := s', environment := rt', returned := returned p @ [outcome]\<rparr>)"
proof -
  let ?s1 = "(scheduler p)\<lparr>isExecuting := True\<rparr>"
  let ?order = "resolveDependencies (scheduler p)"
  let ?p1 = "p\<lparr>scheduler := ?s1, inflight := [(?order, [], {})]\<rparr>"
  have i: "step cron_validate now Invoke p = ?p1" using assms by (simp add: Let_def)
  have restored: "?s1\<lparr>isExecuting := False\<rparr> = scheduler p" using assms(2) by simp
  have m: "run cron_validate now (replicate (length ?order) (Resume 0)) ?p1 =
     (case run_jobs now (scheduler p) ?order ([], {}, environment p) of
        Inl (t, rt') \<Rightarrow>
          ?p1\<lparr>scheduler := scheduler p, environment := rt',
              inflight := [], returned := returned p @ [Inl t]\<rparr>
      | Inr (rs', completed', rt') \<Rightarrow>
          ?p1\<lparr>environment := rt', inflight := [([], rs', completed')]\<rparr>)"
    using resume_all[of ?p1 ?order "[]" "{}" cron_validate now] restored
    by (simp split: sum.splits prod.splits)
  show ?thesis
  proof (cases "run_jobs now (scheduler p) ?order ([], {}, environment p)")
    case (Inl rejection)
    obtain t rt' where rej: "rejection = (t, rt')" by (cases rejection)
    have e: "executeJobsWithDependencies now (scheduler p) (environment p) = (Inl t, scheduler p, rt')"
      using assms(2) Inl rej by (simp add: executeJobsWithDependencies_idle)
    show ?thesis
      unfolding e
      using i m Inl rej assms(1) by (simp add: run_append)
  next
    case (Inr st')
    obtain rs completed rt' where st': "st' = (rs, completed, rt')" by (metis prod_cases3)
    have e: "executeJobsWithDependencies now (scheduler p) (environment p) = (Inr rs, scheduler p, rt')"
      using assms(2) Inr st' by (simp add: executeJobsWithDependencies_idle)
    show ?thesis
      unfolding e
      using i m Inr st' restored assms(1) by (simp add: run_append)
  qed
qed

text \<open>
  The same holds of a round that returns its list when, between its passes, triggers
  fire or the round is invoked again (the guard drops these invocations) and
  \<^verbatim>\<open>start()\<close> and \<^verbatim>\<open>stop()\<close> are called: as long as no job is registered or removed
  while the round is suspended, the list it returns, its effect on the environment
  and the registry are those of the uninterrupted call.
\<close>

lemma executeJob_jobs:
  "jobs s = jobs s' \<Longrightarrow> executeJob now s n rt = executeJob now s' n rt"
  by (simp add: executeJob_def)

lemma run_job_jobs:
  assumes "jobs s = jobs s'"
  shows "run_job now s n st = run_job now s' n st"
proof -
  have e: "executeJob now s n = executeJob now s' n"
    by (rule ext) (rule executeJob_jobs[OF assms])
  show ?thesis unfolding run_job_def assms e by (rule refl)
qed

lemma run_jobs_jobs:
  "jobs s = jobs s' \<Longrightarrow> run_jobs now s order st = run_jobs now s' order st"
  by (induction order arbitrary: st) (simp_all add: run_job_jobs[of s s'] split: sum.splits)

lemma quiet_step:
  assumes "inflight p = [x]" and "isExecuting (scheduler p)" and "quiet e"
  shows "inflight (step cron_validate now e p) = [x]
       \<and> isExecuting (scheduler (step cron_validate now e p))
       \<and> jobs (scheduler (step cron_validate now e p)) = jobs (scheduler p)
       \<and> environment (step cron_validate now e p) = environment p
       \<and> (\<exists>k. returned (step cron_validate now e p) = returned p @ replicate k (Inr []))"
proof (cases e)
  case Invoke
  have "returned p @ [Inr []] = returned p @ replicate 1 (Inr [])" by simp
  then show ?thesis using assms Invoke by (auto simp del: replicate.simps)
next
  case (Resume i)
  have "returned p = returned p @ replicate 0 (Inr [])" by simp
  then show ?thesis using assms Resume by (auto simp: quiet_def simp del: replicate.simps)
next
  case (Call c)
  have k: "returned p = returned p @ replicate 0 (Inr [])" by simp
  show ?thesis
  proof (cases c)
    case Start
    then show ?thesis using assms Call k by (auto simp: start_def simp del: replicate.simps)
  next
    case Stop
    then show ?thesis using assms Call k by (auto simp: stop_def simp del: replicate.simps)
  qed (use assms Call in \<open>simp_all add: quiet_def\<close>)
qed

lemma quiet_run:
  assumes "inflight p = [x]" and "isExecuting (scheduler p)" and "\<forall>e \<in> set q. quiet e"
  shows "inflight (run cron_validate now q p) = [x]
       \<and> isExecuting (scheduler (run cron_validate now q p))
       \<and> jobs (scheduler (run cron_validate now q p)) = jobs (scheduler p)
       \<and> environment (run cron_validate now q p) = environment p
       \<and> (\<exists>k. returned (run cron_validate now q p) = returned p @ replicate k (Inr []))"
  using assms
proof (induction q arbitrary: p)
  case Nil
  have "returned p = returned p @ replicate 0 (Inr [])" by simp
  then show ?case using Nil by (auto simp del: replicate.simps)
next
  case (Cons e q)
  let ?p1 = "step cron_validate now e p"
  have e: "quiet e" and q: "\<forall>e \<in> set q. quiet e" using Cons.prems(3) by simp_all
  from quiet_step[OF Cons.prems(1,2) e, of cron_validate now] obtain k1 where
    s: "inflight ?p1 = [x]" "isExecuting (scheduler ?p1)"
       "jobs (scheduler ?p1) = jobs (scheduler p)" "environment ?p1 = environment p"
       "returned ?p1 = returned p @ replicate k1 (Inr [])"
    by blast
  from Cons.IH[OF s(1,2) q] obtain k2 where
    r: "inflight (run cron_validate now q ?p1) = [x]"
       "isExecuting (scheduler (run cron_validate now q ?p1))"
       "jobs (scheduler (run cron_validate now q ?p1)) = jobs (scheduler ?p1)"
       "environment (run cron_validate now q ?p1) = environment ?p1"
       "returned (run cron_validate now q ?p1) = returned ?p1 @ replicate k2 (Inr [])"
    by blast
  have "returned (run cron_validate now q ?p1) = returned p @ replicate (k1 + k2) (Inr [])"
    using r(5) s(5) by (simp add: replicate_add)
  then show ?case using r(1-4) s(3,4) by auto
qed

lemma frozen_passes:
  assumes "inflight p = [(rem, rs0, completed0)]" and "isExecuting (scheduler p)"
    and "run_jobs now (scheduler p) rem (rs0, completed0, environment p) = Inr (rs, completed, rt')"
    and "length qs = Suc (length rem)"
    and "\<forall>q \<in> set qs. \<forall>e \<in> set q. quiet e"
  shows "inflight (run cron_validate now (concat (map (\<lambda>q. q @ [Resume 0]) qs)) p) = []
       \<and> last (returned (run cron_validate now (concat (map (\<lambda>q. q @ [Resume 0]) qs)) p)) = Inr rs
       \<and> environment (run cron_validate now (concat (map (\<lambda>q. q @ [Resume 0]) qs)) p) = rt'
       \<and> jobs (scheduler (run cron_validate now (concat (map (\<lambda>q. q @ [Resume 0]) qs)) p))
            = jobs (scheduler p)
       \<and> \<not> isExecuting (scheduler (run cron_validate now (concat (map (\<lambda>q. q @ [Resume 0]) qs)) p))"
  using assms
proof (induction rem arbitrary: p rs0 completed0 qs)
  case Nil
  then obtain q where qs: "qs = [q]" by (cases qs) auto
  let ?p1 = "run cron_validate now q p"
  have quiet: "\<forall>e \<in> set q. quiet e" using Nil.prems(5) qs by simp
  from quiet_run[OF Nil.prems(1,2) quiet, of cron_validate now]
  have s: "inflight ?p1 = [([], rs0, completed0)]" "jobs (scheduler ?p1) = jobs (scheduler p)"
       "environment ?p1 = environment p"
    by simp_all
  have eq: "rs0 = rs" "environment p = rt'" using Nil.prems(3) by simp_all
  show ?case using s eq by (simp add: qs run_append)
next
  case (Cons n rest)
  then obtain q qs' where qs: "qs = q # qs'" and len: "length qs' = Suc (length rest)"
    by (cases qs) auto
  let ?p1 = "run cron_validate now q p"
  have quiet: "\<forall>e \<in> set q. quiet e" and quiet': "\<forall>q \<in> set qs'. \<forall>e \<in> set q. quiet e"
    using Cons.prems(5) qs by simp_all
  from quiet_run[OF Cons.prems(1,2) quiet, of cron_validate now]
  have s: "inflight ?p1 = [(n # rest, rs0, completed0)]" "isExecuting (scheduler ?p1)"
       "jobs (scheduler ?p1) = jobs (scheduler p)" "environment ?p1 = environment p"
    by simp_all
  obtain st1 where
    one: "run_job now (scheduler p) n (rs0, completed0, environment p) = Inr st1"
    and tail: "run_jobs now (scheduler p) rest st1 = Inr (rs, completed, rt')"
    using Cons.prems(3) by (auto split: sum.splits)
  obtain rs1 completed1 rt1 where st1: "st1 = (rs1, completed1, rt1)" by (metis prod_cases3)
  have one': "run_job now (scheduler ?p1) n (rs0, completed0, environment ?p1)
                = Inr (rs1, completed1, rt1)"
    using one st1 s(3,4) run_job_jobs[of "scheduler ?p1" "scheduler p"] by simp
  let ?p2 = "step cron_validate now (Resume 0) ?p1"
  have p2: "?p2 = ?p1\<lparr>environment := rt1, inflight := [(rest, rs1, completed1)]\<rparr>"
    using s(1) one' by simp
  have i2: "inflight ?p2 = [(rest, rs1, completed1)]" "isExecuting (scheduler ?p2)"
    "jobs (scheduler ?p2) = jobs (scheduler p)" "environment ?p2 = rt1"
    unfolding p2 using s(2,3) by simp_all
  have tail': "run_jobs now (scheduler ?p2) rest (rs1, completed1, environment ?p2)
                 = Inr (rs, completed, rt')"
    using tail st1 i2(3,4) run_jobs_jobs[of "scheduler ?p2" "scheduler p"] by simp
  have split: "run cron_validate now (concat (map (\<lambda>q. q @ [Resume 0]) qs)) p
                 = run cron_validate now (concat (map (\<lambda>q. q @ [Resume 0]) qs')) ?p2"
    by (simp add: qs run_append)
  from Cons.IH[OF i2(1,2) tail' len quiet'] show ?case
    unfolding split using i2(3) by simp
qed

lemma frozen_round:
  assumes "inflight p = []" and "\<not> isExecuting (scheduler p)"
    and "executeJobsWithDependencies now (scheduler p) (environment p) = (Inr rs, s', rt')"
    and "length qs = Suc (length (resolveDependencies (scheduler p)))"
    and "\<forall>q \<in> set qs. \<forall>e \<in> set q. quiet e"
  shows "inflight (run cron_validate now (Invoke # concat (map (\<lambda>q. q @ [Resume 0]) qs)) p) = []
       \<and> last (returned (run cron_validate now
                 (Invoke # concat (map (\<lambda>q. q @ [Resume 0]) qs)) p)) = Inr rs
       \<and> environment (run cron_validate now
                 (Invoke # concat (map (\<lambda>q. q @ [Resume 0]) qs)) p) = rt'
       \<and> jobs (scheduler (run cron_validate now
                 (Invoke # concat (map (\<lambda>q. q @ [Resume 0]) qs)) p)) = jobs (scheduler p)"
proof -
  let ?s1 = "(scheduler p)\<lparr>isExecuting := True\<rparr>"
  let ?order = "resolveDependencies (scheduler p)"
  let ?p1 = "p\<lparr>scheduler := ?s1, inflight := [(?order, [], {})]\<rparr>"
  have i: "step cron_validate now Invoke p = ?p1" using assms(1,2) by (simp add: Let_def)
  obtain completed where
    run: "run_jobs now (scheduler p) ?order ([], {}, environment p) = Inr (rs, completed, rt')"
    using assms(2,3) by (auto simp: executeJobsWithDependencies_idle split: sum.splits prod.splits)
  have a: "inflight ?p1 = [(?order, [], {})]" "isExecuting (scheduler ?p1)" by simp_all
  have b: "run_jobs now (scheduler ?p1) ?order ([], {}, environment ?p1) = Inr (rs, completed, rt')"
    using run by simp
  from frozen_passes[OF a b assms(4,5), of cron_validate] show ?thesis
    using i by simp
qed

subsection \<open>The concrete instances evaluated\<close>

lemma sample_calls_state:
  "fold (apply_call sample_validate) sample_calls new_JobScheduler =
     \<lparr>jobs = [(''B'', sample_job ''B'' (Some [''A'']) (Inr ()))],
      scheduledTasks = [(''0 * * * *'', 0)],
      scheduleToJobs = [(''0 * * * *'', {''B''})],
      isExecuting = False,
      cron_tasks = [\<lparr>expression = ''0 * * * *'', status = Started\<rparr>]\<rparr>"
  by (simp add: sample_calls_def registerJob_def store_job_def sample_validate_def sample_job_def
        new_JobScheduler_def validateJobDependencies_def detectCircularDependencies_def
        deps_of_def cron_schedule_def removeJob_def start_def set_status_def Let_def
        insert_Diff_if)

lemma ghost_calls_state:
  "fold (apply_call sample_validate) ghost_calls new_JobScheduler =
     \<lparr>jobs = [(''A'', sample_job ''A'' (Some [''ghost'']) (Inr ())),
              (''B'', sample_job ''B'' (Some [''A'']) (Inr ()))],
      scheduledTasks = [(''0 * * * *'', 0)],
      scheduleToJobs = [(''0 * * * *'', {''A'', ''B''})],
      isExecuting = False,
      cron_tasks = [\<lparr>expression = ''0 * * * *'', status = Created\<rparr>]\<rparr>"
  by (simp add: ghost_calls_def registerJob_def store_job_def sample_validate_def sample_job_def
        new_JobScheduler_def validateJobDependencies_def detectCircularDependencies_def
        deps_of_def cron_schedule_def Let_def insert_commute)

lemma sample_unvalidated_state:
  "fold (apply_call sample_validate) sample_unvalidated new_JobScheduler =
     \<lparr>jobs = [(''X'', sample_job ''X'' (Some [''ghost'']) (Inr ()))],
      scheduledTasks = [(''0 * * * *'', 0)],
      scheduleToJobs = [(''0 * * * *'', {''X''})],
      isExecuting = False,
      cron_tasks = [\<lparr>expression = ''0 * * * *'', status = Created\<rparr>]\<rparr>"
  by (simp add: sample_unvalidated_def registerJob_def store_job_def sample_validate_def
        sample_job_def new_JobScheduler_def cron_schedule_def Let_def)

lemma sample_cyclic_state:
  "fold (apply_call sample_validate) sample_cyclic new_JobScheduler =
     \<lparr>jobs = [(''A'', sample_job ''A'' (Some [''A'']) (Inr ())),
              (''D'', sample_job ''D'' None (Inr ()))],
      scheduledTasks = [(''0 * * * *'', 0)],
      scheduleToJobs = [(''0 * * * *'', {''D''})],
      isExecuting = False,
      cron_tasks = [\<lparr>expression = ''0 * * * *'', status = Created\<rparr>]\<rparr>"
  by (simp add: sample_cyclic_def registerJob_def store_job_def sample_validate_def sample_job_def
        new_JobScheduler_def validateJobDependencies_def detectCircularDependencies_def
        deps_of_def cron_schedule_def Let_def)

lemma sample_dag_state:
  "fold (apply_call sample_validate) sample_dag new_JobScheduler =
     \<lparr>jobs = [(''A'', sample_job ''A'' None (Inr ())),
              (''D'', sample_job ''D'' (Some []) (Inr ())),
              (''B'', sample_job ''B'' (Some [''A'', ''A'']) (Inr ())),
              (''C'', sample_job ''C'' (Some [''B'', ''A'', ''B'']) (Inr ()))],
      scheduledTasks = [(''0 * * * *'', 0)],
      scheduleToJobs = [(''0 * * * *'', {''A'', ''B'', ''C'', ''D''})],
      isExecuting = False,
      cron_tasks = [\<lparr>expression = ''0 * * * *'', status = Created\<rparr>]\<rparr>"
  by (simp add: sample_dag_def registerJob_def store_job_def sample_validate_def sample_job_def
        new_JobScheduler_def validateJobDependencies_def detectCircularDependencies_def
        deps_of_def cron_schedule_def Let_def insert_commute)

lemma sample_dag_order:
  "resolveDependencies (fold (apply_call sample_validate) sample_dag new_JobScheduler)
     = [''A'', ''D'', ''B'', ''C'']"
  unfolding sample_dag_state
  by (simp add: resolveDependencies_def sample_job_def init_graph_def degree_of_def Let_def)

lemma sample_order: "resolveDependencies sample_scheduler = [''A'', ''D'', ''B'', ''C'']"
  by (simp add: resolveDependencies_def sample_scheduler_def sample_job_def init_graph_def
        degree_of_def Let_def)

lemma sample_round:
  "executeJobsWithDependencies (\<lambda>w. 0) sample_scheduler \<lparr>world = (), invoked = []\<rparr> =
     (Inr
      [\<lparr>success = False, message = None, error = Some (ErrorObject ''boom''), executionTime = 0,
        jobName = Some ''A'', dependenciesMet = Some True, skippedReason = None\<rparr>,
       \<lparr>success = True, message = Some ''Job D completed successfully'', error = None,
        executionTime = 0, jobName = Some ''D'', dependenciesMet = Some True,
        skippedReason = None\<rparr>,
       \<lparr>success = False, message = None, error = None, executionTime = 0,
        jobName = Some ''B'', dependenciesMet = Some False,
        skippedReason = Some ''Dependency failed or was skipped: A''\<rparr>,
       \<lparr>success = False, message = None, error = None, executionTime = 0,
        jobName = Some ''C'', dependenciesMet = Some False,
        skippedReason = Some ''Dependency failed or was skipped: B''\<rparr>],
      sample_scheduler,
      \<lparr>world = (), invoked = [''A'', ''D'']\<rparr>)"
proof -
  have i: "\<not> isExecuting sample_scheduler" by (simp add: sample_scheduler_def)
  show ?thesis
    unfolding executeJobsWithDependencies_idle[OF i] sample_order
    by (simp add: run_job_def executeJob_def sample_scheduler_def sample_job_def Let_def)
qed

lemma sample_process_two_steps:
  "run sample_validate (\<lambda>w. 0) [Invoke, Resume 0] sample_process =
     \<lparr>scheduler = sample_scheduler\<lparr>isExecuting := True\<rparr>,
      environment = \<lparr>world = (), invoked = [''A'']\<rparr>,
      inflight = [([''D'', ''B'', ''C''],
                   [\<lparr>success = False, message = None, error = Some (ErrorObject ''boom''),
                     executionTime = 0, jobName = Some ''A'', dependenciesMet = Some True,
                     skippedReason = None\<rparr>],
                   {})],
      returned = []\<rparr>"
proof -
  have i: "\<not> isExecuting sample_scheduler" by (simp add: sample_scheduler_def)
  have j: "map_of (jobs sample_scheduler) ''A'' = Some (sample_job ''A'' None (Inl (NonError ''boom'')))"
    by (simp add: sample_scheduler_def)
  show ?thesis
    using i j
    by (simp add: sample_process_def Let_def sample_order run_job_def executeJob_def sample_job_def)
qed

lemma twice_scheduled_state:
  "fold (apply_call two_schedules) twice_scheduled new_JobScheduler =
     \<lparr>jobs = [(''A'', sample_job ''A'' None (Inr ()))],
      scheduledTasks = [(''0 * * * *'', 0), (''*/5 * * * *'', 1)],
      scheduleToJobs = [(''0 * * * *'', {''A''}), (''*/5 * * * *'', {''A''})],
      isExecuting = False,
      cron_tasks = [\<lparr>expression = ''0 * * * *'', status = Created\<rparr>,
                    \<lparr>expression = ''*/5 * * * *'', status = Created\<rparr>]\<rparr>"
  by (simp add: twice_scheduled_def registerJob_def store_job_def two_schedules_def sample_job_def
        new_JobScheduler_def validateJobDependencies_def cron_schedule_def Let_def)

lemma twice_scheduled_removed:
  "fold (apply_call two_schedules) (twice_scheduled @ [RemoveJob ''A'']) new_JobScheduler =
     \<lparr>jobs = [],
      scheduledTasks = [(''*/5 * * * *'', 1)],
      scheduleToJobs = [(''*/5 * * * *'', {''A''})],
      isExecuting = False,
      cron_tasks = [\<lparr>expression = ''0 * * * *'', status = Stopped\<rparr>,
                    \<lparr>expression = ''*/5 * * * *'', status = Created\<rparr>]\<rparr>"
  by (simp add: twice_scheduled_state removeJob_def set_status_def Let_def)

lemma twice_scheduled_started_removed:
  "fold (apply_call two_schedules) (twice_scheduled @ [Start, RemoveJob ''A'']) new_JobScheduler =
     \<lparr>jobs = [],
      scheduledTasks = [(''*/5 * * * *'', 1)],
      scheduleToJobs = [(''*/5 * * * *'', {''A''})],
      isExecuting = False,
      cron_tasks = [\<lparr>expression = ''0 * * * *'', status = Stopped\<rparr>,
                    \<lparr>expression = ''*/5 * * * *'', status = Started\<rparr>]\<rparr>"
  by (simp add: twice_scheduled_state removeJob_def start_def set_status_def Let_def)

lemma unconvertible_calls_state:
  "fold (apply_call sample_validate) unconvertible_calls new_JobScheduler =
     \<lparr>jobs = [(''A'', sample_job ''A'' None
                 (Inl (NoString (ErrorObject ''Cannot convert object to primitive value'')))),
              (''B'', sample_job ''B'' None (Inr ()))],
      scheduledTasks = [(''0 * * * *'', 0)],
      scheduleToJobs = [(''0 * * * *'', {''A'', ''B''})],
      isExecuting = False,
      cron_tasks = [\<lparr>expression = ''0 * * * *'', status = Created\<rparr>]\<rparr>"
  by (simp add: unconvertible_calls_def registerJob_def store_job_def sample_validate_def
        sample_job_def new_JobScheduler_def validateJobDependencies_def cron_schedule_def
        Let_def insert_commute)

lemma unconvertible_order:
  "resolveDependencies (fold (apply_call sample_validate) unconvertible_calls new_JobScheduler)
     = [''A'', ''B'']"
  unfolding unconvertible_calls_state
  by (simp add: resolveDependencies_def sample_job_def init_graph_def degree_of_def Let_def)

section \<open>The claims\<close>

subsection \<open>C1: dependents of a job that did not complete are skipped\<close>

text \<open>
  C1 as stated fails on the code in two ways: a job can have a dependency that did not
  complete and yet no result at all.

  First, a job that the topological sort leaves out of the execution order is never
  looked at. A is registered without validation and declares a name that is not
  registered, and B, registered with validation, declares A. The round returns the
  empty list: A never completes, and B, which declares it, has no skip result.

  Second, the loop passes over a name of the order that is no longer registered when
  its turn comes (\<^verbatim>\<open>if (!job) continue\<close>). With the order A, D, B, C, where B declares
  A: the round is invoked, A runs and fails, \<^verbatim>\<open>removeJob("B")\<close> is called while the round
  is suspended, and the round goes on to its end. It returns results for A, D and C
  only: B, a job of the order whose dependency failed, has none.
\<close>

theorem dependent_without_result:
  "hasJob (fold (apply_call sample_validate) ghost_calls new_JobScheduler) ''B''
   \<and> deps_of (jobs (fold (apply_call sample_validate) ghost_calls new_JobScheduler)) ''B'' = [''A'']
   \<and> \<not> isExecuting (fold (apply_call sample_validate) ghost_calls new_JobScheduler)
   \<and> fst (executeJobsWithDependencies (\<lambda>w. 0)
            (fold (apply_call sample_validate) ghost_calls new_JobScheduler)
            \<lparr>world = (), invoked = []\<rparr>) = Inr []
   \<and> resolveDependencies sample_scheduler = [''A'', ''D'', ''B'', ''C'']
   \<and> deps_of (jobs sample_scheduler) ''B'' = [''A'']
   \<and> returned (run sample_validate (\<lambda>w. 0)
         [Invoke, Resume 0, Call (RemoveJob ''B''), Resume 0, Resume 0, Resume 0, Resume 0]
         sample_process) =
       [Inr [\<lparr>success = False, message = None, error = Some (ErrorObject ''boom''),
              executionTime = 0, jobName = Some ''A'', dependenciesMet = Some True,
              skippedReason = None\<rparr>,
             \<lparr>success = True, message = Some ''Job D completed successfully'', error = None,
              executionTime = 0, jobName = Some ''D'', dependenciesMet = Some True,
              skippedReason = None\<rparr>,
             \<lparr>success = False, message = None, error = None, executionTime = 0,
              jobName = Some ''C'', dependenciesMet = Some False,
              skippedReason = Some ''Dependency failed or was skipped: B''\<rparr>]]"
proof -
  have unordered:
    "hasJob (fold (apply_call sample_validate) ghost_calls new_JobScheduler) ''B''
     \<and> deps_of (jobs (fold (apply_call sample_validate) ghost_calls new_JobScheduler)) ''B'' = [''A'']
     \<and> \<not> isExecuting (fold (apply_call sample_validate) ghost_calls new_JobScheduler)
     \<and> fst (executeJobsWithDependencies (\<lambda>w. 0)
              (fold (apply_call sample_validate) ghost_calls new_JobScheduler)
              \<lparr>world = (), invoked = []\<rparr>) = Inr []"
    unfolding ghost_calls_state
    by (simp add: hasJob_def deps_of_def sample_job_def executeJobsWithDependencies_def
          resolveDependencies_def init_graph_def degree_of_def Let_def)
  have declares: "deps_of (jobs sample_scheduler) ''B'' = [''A'']"
    by (simp add: deps_of_def sample_scheduler_def sample_job_def)
  have removed:
    "returned (run sample_validate (\<lambda>w. 0)
       [Invoke, Resume 0, Call (RemoveJob ''B''), Resume 0, Resume 0, Resume 0, Resume 0]
       sample_process) =
     [Inr [\<lparr>success = False, message = None, error = Some (ErrorObject ''boom''),
            executionTime = 0, jobName = Some ''A'', dependenciesMet = Some True,
            skippedReason = None\<rparr>,
           \<lparr>success = True, message = Some ''Job D completed successfully'', error = None,
            executionTime = 0, jobName = Some ''D'', dependenciesMet = Some True,
            skippedReason = None\<rparr>,
           \<lparr>success = False, message = None, error = None, executionTime = 0,
            jobName = Some ''C'', dependenciesMet = Some False,
            skippedReason = Some ''Dependency failed or was skipped: B''\<rparr>]]"
    by code_simp
  show ?thesis
    by (intro conjI unordered[THEN conjunct1] unordered[THEN conjunct2, THEN conjunct1]
          unordered[THEN conjunct2, THEN conjunct2, THEN conjunct1]
          unordered[THEN conjunct2, THEN conjunct2, THEN conjunct2]
          sample_order declares removed)
qed

text \<open>
  C1, amended. \<open>executeJobsWithDependencies\<close> is the round with no other call of the
  scheduler between its awaits (lemma \<open>uninterrupted_round\<close>), so the registered jobs
  are the same from its first pass to its last; what it returns is what any round
  returns during which no job is registered or removed (lemma \<open>frozen_round\<close>). In
  such a round, when the guard does not drop it and it returns its list, every name
  of the execution order has its result at its position, and for every job of the order: when some name it declares
  is not among the jobs that completed successfully earlier in the round (it failed,
  was skipped, or was not run), the job's result has \<open>success = False\<close>,
  \<open>dependenciesMet = Some False\<close>, \<open>executionTime = 0\<close> and a \<open>skippedReason\<close> that names
  the first such name of the job's own list; the round does not call its
  \<^verbatim>\<open>execute()\<close>; and the job is itself not among the completed ones, so that its own
  dependents are skipped in turn. A round that throws returns no list; what makes it
  throw is the subject of C9.
\<close>

theorem dependents_skipped:
  assumes "\<not> isExecuting s" and "distinct (map fst (jobs s))"
    and "executeJobsWithDependencies now s rt = (Inr rs, s', rt')"
    and "i < length (resolveDependencies s)"
    and "find (\<lambda>depName. depName \<notin> succeeded (take i rs))
           (deps_of (jobs s) (resolveDependencies s ! i)) = Some d"
  shows "map jobName rs = map Some (resolveDependencies s)
       \<and> rs ! i =
           \<lparr>success = False, message = None, error = None, executionTime = 0,
            jobName = Some (resolveDependencies s ! i), dependenciesMet = Some False,
            skippedReason = Some (''Dependency failed or was skipped: '' @ d)\<rparr>
       \<and> resolveDependencies s ! i \<notin> set (drop (length (invoked rt)) (invoked rt'))
       \<and> resolveDependencies s ! i \<notin> succeeded rs"
proof -
  let ?order = "resolveDependencies s"
  have reg: "\<forall>n \<in> set ?order. map_of (jobs s) n \<noteq> None"
    using assms(2) by (rule order_registered)
  have dist: "distinct ?order" using resolveDependencies_distinct_subset[OF assms(2)] by simp
  obtain completed where run: "run_jobs now s ?order ([], {}, rt) = Inr (rs, completed, rt')"
    using assms(1,3) by (auto simp: executeJobsWithDependencies_idle split: sum.splits prod.splits)
  obtain job where job: "map_of (jobs s) (?order ! i) = Some job"
    using reg assms(4) by (metis nth_mem not_Some_eq)
  have f: "find (\<lambda>depName. depName \<notin> succeeded (take i rs)) (declared job) = Some d"
    using assms(5) deps_of_declared[OF job] by simp
  have entry: "rs ! i = skipped (?order ! i) d"
    using round_skipped[OF reg run assms(4) job f] .
  then have met: "dependenciesMet (rs ! i) \<noteq> Some True" by (simp add: skipped_def)
  have inv: "invoked rt' = invoked rt @ executed_names rs"
    and nin: "?order ! i \<notin> set (executed_names rs)"
    using round_not_invoked[OF reg run dist assms(4) met] by simp_all
  have names: "map jobName rs = map Some ?order" and len: "length rs = length ?order"
    using round_names[OF reg run] by simp_all
  have ns: "?order ! i \<notin> succeeded rs"
  proof
    assume "?order ! i \<in> succeeded rs"
    then obtain r where r: "r \<in> set rs" "success r" "jobName r = Some (?order ! i)"
      by (auto simp: succeeded_def map_filter_def split: if_splits)
    then obtain k where k: "k < length rs" "rs ! k = r" by (metis in_set_conv_nth)
    have "map jobName rs ! k = Some (?order ! k)" using names k(1) len by simp
    then have "?order ! k = ?order ! i" using k r(3) by simp
    then have "k = i" using dist assms(4) k(1) len by (simp add: nth_eq_iff_index_eq)
    moreover have "\<not> success (rs ! i)" unfolding entry by (simp add: skipped_def)
    ultimately show False using k(2) r(2) by simp
  qed
  show ?thesis using names entry inv nin ns by (simp add: skipped_def)
qed

theorem dependents_skipped_witness:
  "\<not> isExecuting sample_scheduler \<and> distinct (map fst (jobs sample_scheduler))
   \<and> (3::nat) < length (resolveDependencies sample_scheduler)
   \<and> resolveDependencies sample_scheduler ! 3 = ''C''
   \<and> find (\<lambda>depName. depName \<notin> succeeded (take 3
             (case fst (executeJobsWithDependencies (\<lambda>w. 0) sample_scheduler
                          \<lparr>world = (), invoked = []\<rparr>) of
                Inl e \<Rightarrow> [] | Inr rs \<Rightarrow> rs)))
         (deps_of (jobs sample_scheduler) ''C'') = Some ''B''
   \<and> (case fst (executeJobsWithDependencies (\<lambda>w. 0) sample_scheduler
                  \<lparr>world = (), invoked = []\<rparr>) of
        Inl e \<Rightarrow> [] | Inr rs \<Rightarrow> rs) ! 3 =
       \<lparr>success = False, message = None, error = None, executionTime = 0,
        jobName = Some ''C'', dependenciesMet = Some False,
        skippedReason = Some ''Dependency failed or was skipped: B''\<rparr>
   \<and> ''C'' \<notin> set (invoked (snd (snd
         (executeJobsWithDependencies (\<lambda>w. 0) sample_scheduler \<lparr>world = (), invoked = []\<rparr>))))"
proof -
  have a: "\<not> isExecuting sample_scheduler" "distinct (map fst (jobs sample_scheduler))"
    by (simp_all add: sample_scheduler_def)
  have i: "(3::nat) < length (resolveDependencies sample_scheduler)" by (simp add: sample_order)
  have f: "find (\<lambda>depName. depName \<notin> succeeded (take 3
             [\<lparr>success = False, message = None, error = Some (ErrorObject ''boom''), executionTime = 0,
        jobName = Some ''A'', dependenciesMet = Some True, skippedReason = None\<rparr>,
       \<lparr>success = True, message = Some ''Job D completed successfully'', error = None,
        executionTime = 0, jobName = Some ''D'', dependenciesMet = Some True,
        skippedReason = None\<rparr>,
       \<lparr>success = False, message = None, error = None, executionTime = 0,
        jobName = Some ''B'', dependenciesMet = Some False,
        skippedReason = Some ''Dependency failed or was skipped: A''\<rparr>,
       \<lparr>success = False, message = None, error = None, executionTime = 0,
        jobName = Some ''C'', dependenciesMet = Some False,
        skippedReason = Some ''Dependency failed or was skipped: B''\<rparr>]))
         (deps_of (jobs sample_scheduler) (resolveDependencies sample_scheduler ! 3)) = Some ''B''"
    unfolding sample_order
    by (simp add: succeeded_def map_filter_def deps_of_def sample_scheduler_def sample_job_def)
  show ?thesis
    using dependents_skipped[OF a sample_round i f] a i f
    by (simp add: sample_round sample_order)
qed

subsection \<open>C2: the order of resolveDependencies\<close>

text \<open>
  C2 as stated fails on the code: acyclicity is not enough. A job registered with
  \<^verbatim>\<open>validateDependencies = false\<close> that declares a name which is not registered keeps
  an in-degree that never reaches zero, and the order leaves it out.
\<close>

theorem resolveDependencies_omits_job:
  "\<not> cyclic (jobs (fold (apply_call sample_validate) sample_unvalidated new_JobScheduler))
   \<and> getJobs (fold (apply_call sample_validate) sample_unvalidated new_JobScheduler) = [''X'']
   \<and> resolveDependencies (fold (apply_call sample_validate) sample_unvalidated new_JobScheduler) = []"
proof -
  let ?s = "fold (apply_call sample_validate) sample_unvalidated new_JobScheduler"
  have "detectCircularDependencies ?s = Inr ()"
    unfolding sample_unvalidated_state
    by (simp add: detectCircularDependencies_def deps_of_def sample_job_def)
  then have "\<not> cyclic (jobs ?s)" by (rule acyclic_by_detection)
  moreover have "getJobs ?s = [''X''] \<and> resolveDependencies ?s = []"
    unfolding sample_unvalidated_state
    by (simp add: getJobs_def sample_job_def resolveDependencies_def init_graph_def
          degree_of_def Let_def)
  ultimately show ?thesis by simp
qed

text \<open>
  C2, amended. When every declared name of every registered job is registered and the
  graph has no cycle (entries repeated in a dependency list are allowed), the result of
  \<^verbatim>\<open>resolveDependencies()\<close>, which is also that of \<^verbatim>\<open>getExecutionOrder()\<close>, holds
  every registered name exactly once, and every name a job declares stands at an
  earlier position than the job.
\<close>

theorem resolveDependencies_topological:
  assumes "distinct (map fst (jobs s))" and "deps_registered (jobs s)" and "\<not> cyclic (jobs s)"
  shows "getExecutionOrder s = resolveDependencies s
       \<and> distinct (resolveDependencies s)
       \<and> set (resolveDependencies s) = set (getJobs s)
       \<and> dependencies_first (jobs s) (resolveDependencies s)"
  using resolveDependencies_valid[OF assms]
  by (simp add: getExecutionOrder_def getJobs_def)

theorem resolveDependencies_topological_witness:
  "distinct (map fst (jobs (fold (apply_call sample_validate) sample_dag new_JobScheduler)))
   \<and> deps_registered (jobs (fold (apply_call sample_validate) sample_dag new_JobScheduler))
   \<and> \<not> cyclic (jobs (fold (apply_call sample_validate) sample_dag new_JobScheduler))
   \<and> deps_of (jobs (fold (apply_call sample_validate) sample_dag new_JobScheduler)) ''C''
        = [''B'', ''A'', ''B'']
   \<and> getExecutionOrder (fold (apply_call sample_validate) sample_dag new_JobScheduler)
        = [''A'', ''D'', ''B'', ''C'']
   \<and> set (getJobs (fold (apply_call sample_validate) sample_dag new_JobScheduler))
        = set [''A'', ''D'', ''B'', ''C'']
   \<and> dependencies_first (jobs (fold (apply_call sample_validate) sample_dag new_JobScheduler))
        [''A'', ''D'', ''B'', ''C'']"
proof -
  let ?s = "fold (apply_call sample_validate) sample_dag new_JobScheduler"
  have d: "distinct (map fst (jobs ?s))" unfolding sample_dag_state by simp
  have r: "deps_registered (jobs ?s)"
    unfolding sample_dag_state by (simp add: deps_registered_def deps_of_def sample_job_def)
  have "detectCircularDependencies ?s = Inr ()"
    unfolding sample_dag_state
    by (simp add: detectCircularDependencies_def deps_of_def sample_job_def)
  then have c: "\<not> cyclic (jobs ?s)" by (rule acyclic_by_detection)
  have e: "deps_of (jobs ?s) ''C'' = [''B'', ''A'', ''B'']"
    unfolding sample_dag_state by (simp add: deps_of_def sample_job_def)
  show ?thesis
    using resolveDependencies_topological[OF d r c] d r c e
    by (simp add: sample_dag_order)
qed

subsection \<open>C3: registerJob and cycles\<close>

text \<open>
  C3 as stated fails on the code: \<^verbatim>\<open>validateJobDependencies\<close> returns at once for a job
  that declares no dependency, so no cycle check runs. The registration of A, which
  declares itself, is rejected but leaves A stored; registering B, which declares
  nothing, then succeeds although A still reaches itself.
\<close>

theorem registerJob_without_dependencies_ignores_cycle:
  "fst (registerJob sample_validate (sample_job ''B'' None (Inr ())) ''0 * * * *'' True
          (fold (apply_call sample_validate) sample_cyclic new_JobScheduler)) = Inr ()
   \<and> (''A'', ''A'') \<in> (edges (jobs (store_job (sample_job ''B'' None (Inr ()))
          (fold (apply_call sample_validate) sample_cyclic new_JobScheduler))))\<^sup>+"
proof -
  have "(''A'', ''A'') \<in> edges (jobs (store_job (sample_job ''B'' None (Inr ()))
          (fold (apply_call sample_validate) sample_cyclic new_JobScheduler)))"
    unfolding sample_cyclic_state
    by (simp add: edges_def deps_of_def store_job_def sample_job_def)
  then have "(''A'', ''A'') \<in> (edges (jobs (store_job (sample_job ''B'' None (Inr ()))
          (fold (apply_call sample_validate) sample_cyclic new_JobScheduler))))\<^sup>+"
    by (rule r_into_trancl)
  moreover have "fst (registerJob sample_validate (sample_job ''B'' None (Inr ())) ''0 * * * *'' True
          (fold (apply_call sample_validate) sample_cyclic new_JobScheduler)) = Inr ()"
    unfolding sample_cyclic_state
    by (simp add: registerJob_def store_job_def sample_validate_def sample_job_def
          validateJobDependencies_def cron_schedule_def Let_def)
  ultimately show ?thesis by simp
qed

text \<open>
  C3, amended. For a call \<^verbatim>\<open>registerJob(job, expr, true)\<close> with an expression the
  validator accepts and a job that declares at least one name, all of them registered:
  the call throws the circular-dependency error when the graph over all registered
  jobs, the new one included, has a cycle (anywhere, a job that declares itself
  included), and it succeeds when the graph has none.
\<close>

theorem registerJob_circular_dependency:
  assumes "cron_validate cronExpression" and "declared job \<noteq> []"
    and "\<forall>depName \<in> set (declared job). hasJob (store_job job s) depName"
  shows "(cyclic (jobs (store_job job s)) \<longrightarrow>
            (\<exists>n. fst (registerJob cron_validate job cronExpression True s)
                    = Inl (CircularDependency n)))
       \<and> (\<not> cyclic (jobs (store_job job s)) \<longrightarrow>
            fst (registerJob cron_validate job cronExpression True s) = Inr ())"
proof -
  have r: "fst (registerJob cron_validate job cronExpression True s)
             = detectCircularDependencies (store_job job s)"
    using registerJob_outcome[of cron_validate cronExpression job True s] assms(1)
      validateJobDependencies_registered[OF assms(2,3)] by simp
  show ?thesis
  proof (cases "detectCircularDependencies (store_job job s)")
    case (Inl e)
    then have "cyclic (jobs (store_job job s))"
      using detectCircularDependencies_iff[of "store_job job s"] by simp
    moreover obtain n where "e = CircularDependency n"
      using Inl detectCircularDependencies_error by blast
    ultimately show ?thesis using r Inl by simp
  next
    case (Inr u)
    then have "\<not> cyclic (jobs (store_job job s))"
      using detectCircularDependencies_iff[of "store_job job s"] by simp
    then show ?thesis using r Inr by simp
  qed
qed

theorem registerJob_circular_dependency_witness:
  "sample_validate ''0 * * * *''
   \<and> declared (sample_job ''C'' (Some [''D'']) (Inr ())) = [''D'']
   \<and> hasJob (store_job (sample_job ''C'' (Some [''D'']) (Inr ()))
              (fold (apply_call sample_validate) sample_cyclic new_JobScheduler)) ''D''
   \<and> cyclic (jobs (store_job (sample_job ''C'' (Some [''D'']) (Inr ()))
              (fold (apply_call sample_validate) sample_cyclic new_JobScheduler)))
   \<and> fst (registerJob sample_validate (sample_job ''C'' (Some [''D'']) (Inr ())) ''0 * * * *'' True
            (fold (apply_call sample_validate) sample_cyclic new_JobScheduler))
        = Inl (CircularDependency ''A'')
   \<and> \<not> cyclic (jobs (store_job (sample_job ''B'' (Some [''A'']) (Inr ()))
              (fold (apply_call sample_validate) [RegisterJob (sample_job ''A'' None (Inr ()))
                 ''0 * * * *'' True] new_JobScheduler)))
   \<and> fst (registerJob sample_validate (sample_job ''B'' (Some [''A'']) (Inr ())) ''0 * * * *'' True
            (fold (apply_call sample_validate) [RegisterJob (sample_job ''A'' None (Inr ()))
                 ''0 * * * *'' True] new_JobScheduler))
        = Inr ()"
proof -
  let ?s = "fold (apply_call sample_validate) sample_cyclic new_JobScheduler"
  let ?C = "sample_job ''C'' (Some [''D'']) (Inr ())"
  let ?t = "fold (apply_call sample_validate) [RegisterJob (sample_job ''A'' None (Inr ()))
                 ''0 * * * *'' True] (new_JobScheduler :: unit JobScheduler)"
  let ?B = "sample_job ''B'' (Some [''A'']) (Inr ())"
  have v: "sample_validate ''0 * * * *''" by (simp add: sample_validate_def)
  have dC: "declared ?C = [''D'']" by (simp add: declared_def sample_job_def)
  have hC: "hasJob (store_job ?C ?s) ''D''"
    unfolding sample_cyclic_state by (simp add: hasJob_def store_job_def sample_job_def)
  have rC: "fst (registerJob sample_validate ?C ''0 * * * *'' True ?s) = Inl (CircularDependency ''A'')"
    unfolding sample_cyclic_state
    by (simp add: registerJob_def store_job_def sample_validate_def sample_job_def
          validateJobDependencies_def detectCircularDependencies_def deps_of_def Let_def)
  have dB: "declared ?B = [''A'']" by (simp add: declared_def sample_job_def)
  have hB: "hasJob (store_job ?B ?t) ''A''"
    by (simp add: hasJob_def store_job_def sample_job_def registerJob_def sample_validate_def
          validateJobDependencies_def new_JobScheduler_def cron_schedule_def Let_def)
  have rB: "fst (registerJob sample_validate ?B ''0 * * * *'' True ?t) = Inr ()"
    by (simp add: registerJob_def store_job_def sample_validate_def sample_job_def
          validateJobDependencies_def detectCircularDependencies_def deps_of_def
          new_JobScheduler_def cron_schedule_def Let_def)
  have "(''A'', ''A'') \<in> edges (jobs (store_job ?C ?s))"
    unfolding sample_cyclic_state
    by (simp add: edges_def deps_of_def store_job_def sample_job_def)
  then have 1: "cyclic (jobs (store_job ?C ?s))"
    unfolding cyclic_def by (blast intro: r_into_trancl)
  have "detectCircularDependencies (store_job ?B ?t) = Inr ()"
    by (simp add: registerJob_def store_job_def sample_validate_def sample_job_def
          validateJobDependencies_def detectCircularDependencies_def deps_of_def
          new_JobScheduler_def cron_schedule_def Let_def)
  then have 2: "\<not> cyclic (jobs (store_job ?B ?t))" by (rule acyclic_by_detection)
  show ?thesis
    using registerJob_circular_dependency[of sample_validate "''0 * * * *''" ?C ?s]
      registerJob_circular_dependency[of sample_validate "''0 * * * *''" ?B ?t]
      v dC hC rC dB hB rB 1 2
    by simp
qed

subsection \<open>C4: one round in flight\<close>

text \<open>
  C4. From a process at rest, after any sequence of triggers firing, suspended rounds
  going on and other calls of the scheduler, at most one invocation of
  \<^verbatim>\<open>executeJobsWithDependencies\<close> is in flight; and an invocation made while one is in
  flight only returns the empty list (\<open>Inr []\<close>, so it throws nothing): the scheduler,
  the environment (so no \<^verbatim>\<open>execute()\<close> is called) and the round in flight are as
  before, and nothing is queued.
\<close>

theorem at_most_one_round_in_flight:
  assumes "inflight p0 = []" and "\<not> isExecuting (scheduler p0)"
  shows "length (inflight (run cron_validate now events p0)) \<le> 1
       \<and> (inflight (run cron_validate now events p0) \<noteq> [] \<longrightarrow>
            step cron_validate now Invoke (run cron_validate now events p0)
              = (run cron_validate now events p0)
                  \<lparr>returned := returned (run cron_validate now events p0) @ [Inr []]\<rparr>)"
proof -
  have "guard_inv p0" using assms by (simp add: guard_inv_def)
  then have "guard_inv (run cron_validate now events p0)" by (rule guard_inv_run)
  then show ?thesis by (simp add: guard_inv_def)
qed

theorem at_most_one_round_in_flight_witness:
  "inflight sample_process = [] \<and> \<not> isExecuting (scheduler sample_process)
   \<and> length (inflight (run sample_validate (\<lambda>w. 0) [Invoke, Resume 0] sample_process)) = 1
   \<and> returned (step sample_validate (\<lambda>w. 0) Invoke
        (run sample_validate (\<lambda>w. 0) [Invoke, Resume 0] sample_process)) = [Inr []]
   \<and> invoked (environment (step sample_validate (\<lambda>w. 0) Invoke
        (run sample_validate (\<lambda>w. 0) [Invoke, Resume 0] sample_process))) = [''A'']
   \<and> inflight (step sample_validate (\<lambda>w. 0) Invoke
        (run sample_validate (\<lambda>w. 0) [Invoke, Resume 0] sample_process))
      = inflight (run sample_validate (\<lambda>w. 0) [Invoke, Resume 0] sample_process)"
proof -
  have a: "inflight sample_process = []" "\<not> isExecuting (scheduler sample_process)"
    by (simp_all add: sample_process_def sample_scheduler_def)
  show ?thesis
    using at_most_one_round_in_flight[OF a, of sample_validate "\<lambda>w. 0" "[Invoke, Resume 0]"] a
    unfolding sample_process_two_steps
    by simp
qed

subsection \<open>C5: a registration that fails\<close>

text \<open>
  C5 as stated fails on the code: the job is stored before any validation and stays
  stored when the call throws. Registering, on a new scheduler, a job X that declares
  an unregistered name is rejected with \<open>DependencyNotFound\<close>, and X is in the
  registered-job map afterwards although it was not before.
\<close>

theorem registerJob_failure_not_atomic:
  "fst (registerJob sample_validate (sample_job ''X'' (Some [''ghost'']) (Inr ())) ''0 * * * *'' True
          new_JobScheduler) = Inl (DependencyNotFound ''ghost'' ''X'')
   \<and> hasJob (snd (registerJob sample_validate (sample_job ''X'' (Some [''ghost'']) (Inr ()))
                     ''0 * * * *'' True new_JobScheduler)) ''X''
   \<and> \<not> hasJob (new_JobScheduler :: unit JobScheduler) ''X''"
  by (simp add: registerJob_def store_job_def sample_validate_def sample_job_def
        new_JobScheduler_def hasJob_def validateJobDependencies_def)

text \<open>
  C5, amended. When \<^verbatim>\<open>registerJob\<close> fails, for whichever of its three reasons, the
  schedule groups, the task references, the task objects and the \<^verbatim>\<open>isExecuting\<close> flag
  are as before the call, so the job has joined no schedule group; the registered-job
  map is the one before the call with the job stored under its name.
\<close>

theorem registerJob_failure_state:
  "fst (registerJob cron_validate job cronExpression validateDependencies s) = Inl e \<Longrightarrow>
   scheduleToJobs (snd (registerJob cron_validate job cronExpression validateDependencies s))
     = scheduleToJobs s
   \<and> scheduledTasks (snd (registerJob cron_validate job cronExpression validateDependencies s))
     = scheduledTasks s
   \<and> cron_tasks (snd (registerJob cron_validate job cronExpression validateDependencies s))
     = cron_tasks s
   \<and> isExecuting (snd (registerJob cron_validate job cronExpression validateDependencies s))
     = isExecuting s
   \<and> jobs (snd (registerJob cron_validate job cronExpression validateDependencies s))
     = AList.update (name job) job (jobs s)"
  using registerJob_Inl[of cron_validate job cronExpression validateDependencies s e]
  by (cases "registerJob cron_validate job cronExpression validateDependencies s")
     (simp add: store_job_def)

theorem registerJob_failure_state_witness:
  "fst (registerJob sample_validate (sample_job ''B'' (Some [''B'']) (Inr ())) ''0 * * * *'' True
          new_JobScheduler) = Inl (CircularDependency ''B'')
   \<and> scheduleToJobs (snd (registerJob sample_validate (sample_job ''B'' (Some [''B'']) (Inr ()))
          ''0 * * * *'' True new_JobScheduler)) = []
   \<and> scheduledTasks (snd (registerJob sample_validate (sample_job ''B'' (Some [''B'']) (Inr ()))
          ''0 * * * *'' True new_JobScheduler)) = []
   \<and> jobs (snd (registerJob sample_validate (sample_job ''B'' (Some [''B'']) (Inr ()))
          ''0 * * * *'' True new_JobScheduler))
        = [(''B'', sample_job ''B'' (Some [''B'']) (Inr ()))]"
proof -
  have f: "fst (registerJob sample_validate (sample_job ''B'' (Some [''B'']) (Inr ())) ''0 * * * *''
             True (new_JobScheduler :: unit JobScheduler)) = Inl (CircularDependency ''B'')"
    by (simp add: registerJob_def store_job_def sample_validate_def sample_job_def
        new_JobScheduler_def validateJobDependencies_def detectCircularDependencies_def
        deps_of_def)
  show ?thesis
    using registerJob_failure_state[OF f] f
    by (simp add: new_JobScheduler_def sample_job_def)
qed

subsection \<open>C6: a dependency that is not registered\<close>

text \<open>
  C6 as stated fails on the code: the cron expression is validated first, so a job with
  an unregistered dependency and an expression the validator rejects fails with
  \<^verbatim>\<open>Invalid cron expression\<close>, not with \<open>DependencyNotFound\<close>.
\<close>

theorem registerJob_invalid_cron_before_dependencies:
  "fst (registerJob sample_validate (sample_job ''X'' (Some [''ghost'']) (Inr ())) ''every hour'' True
          (new_JobScheduler :: unit JobScheduler)) = Inl (InvalidCronExpression ''every hour'')"
  by (simp add: registerJob_def store_job_def sample_validate_def sample_job_def
        new_JobScheduler_def)

text \<open>
  C6, amended. When the cron expression is valid, \<^verbatim>\<open>registerJob\<close> with
  \<^verbatim>\<open>validateDependencies = true\<close> fails with \<open>DependencyNotFound\<close> exactly when some
  declared name is not registered at validation time (the job itself is registered by
  then); the error names the first such name of the list and the job that requires it.
  When every declared name is registered the call does not fail with
  \<open>DependencyNotFound\<close>.
\<close>

theorem registerJob_dependency_not_found:
  "cron_validate cronExpression \<Longrightarrow>
   (case find (\<lambda>depName. \<not> hasJob (store_job job s) depName) (declared job) of
      Some depName \<Rightarrow>
        fst (registerJob cron_validate job cronExpression True s)
          = Inl (DependencyNotFound depName (name job))
    | None \<Rightarrow>
        (\<forall>depName requiredBy.
           fst (registerJob cron_validate job cronExpression True s)
             \<noteq> Inl (DependencyNotFound depName requiredBy)))"
  by (auto simp: registerJob_def Let_def validateJobDependencies_def declared_def hasJob_def
        detectCircularDependencies_def cron_schedule_def
        split: option.splits sum.splits if_splits prod.splits dest!: detect_from_error)

theorem registerJob_dependency_not_found_witness:
  "sample_validate ''0 * * * *''
   \<and> find (\<lambda>depName. \<not> hasJob (store_job (sample_job ''X'' (Some [''X'', ''ghost'']) (Inr ()))
                                   new_JobScheduler) depName)
         (declared (sample_job ''X'' (Some [''X'', ''ghost'']) (Inr ()))) = Some ''ghost''
   \<and> fst (registerJob sample_validate (sample_job ''X'' (Some [''X'', ''ghost'']) (Inr ()))
            ''0 * * * *'' True new_JobScheduler) = Inl (DependencyNotFound ''ghost'' ''X'')"
proof -
  have v: "sample_validate ''0 * * * *''" by (simp add: sample_validate_def)
  have f: "find (\<lambda>depName. \<not> hasJob (store_job (sample_job ''X'' (Some [''X'', ''ghost'']) (Inr ()))
                                   (new_JobScheduler :: unit JobScheduler)) depName)
         (declared (sample_job ''X'' (Some [''X'', ''ghost'']) (Inr ()))) = Some ''ghost''"
    by (simp add: hasJob_def store_job_def sample_job_def declared_def new_JobScheduler_def)
  show ?thesis
    using registerJob_dependency_not_found[of sample_validate "''0 * * * *''"
            "sample_job ''X'' (Some [''X'', ''ghost'']) (Inr ())" new_JobScheduler] v f
    by (simp add: sample_job_def)
qed

subsection \<open>C7: one result per registered job\<close>

text \<open>
  C7 as stated fails on the code in two ways.

  First, after \<^verbatim>\<open>removeJob\<close> has taken away a job that another one declares, the round
  leaves the dependent out. A and B (which declares A) are registered, A is removed; B
  is still registered and the round returns no result.

  Second, the order is fixed when the round starts and the registry is read again at
  every pass, so a call that changes the registry while the round is suspended at an
  \<^verbatim>\<open>await\<close> shows in the list. The jobs A, B, C, D are registered, every declared name is
  registered and there is no cycle. The round is invoked and A runs; while the round
  is suspended D is removed and L is registered; the round goes on to its end. The
  graph is valid afterwards as well, and the list has results for A, B and C: none
  for D, registered when the round was invoked, and none for L, registered when it
  returned.
\<close>

theorem round_omits_registered_job:
  "getJobs (fold (apply_call sample_validate) sample_calls new_JobScheduler) = [''B'']
   \<and> \<not> isExecuting (fold (apply_call sample_validate) sample_calls new_JobScheduler)
   \<and> fst (executeJobsWithDependencies (\<lambda>w. 0)
            (fold (apply_call sample_validate) sample_calls new_JobScheduler)
            \<lparr>world = (), invoked = []\<rparr>) = Inr []
   \<and> getJobs sample_scheduler = [''A'', ''B'', ''C'', ''D'']
   \<and> deps_registered (jobs sample_scheduler)
   \<and> detectCircularDependencies sample_scheduler = Inr ()
   \<and> getJobs (scheduler (run sample_validate (\<lambda>w. 0)
         [Invoke, Resume 0, Call (RemoveJob ''D''),
          Call (RegisterJob (sample_job ''L'' None (Inr ())) ''0 * * * *'' True),
          Resume 0, Resume 0, Resume 0, Resume 0]
         sample_process)) = [''A'', ''B'', ''C'', ''L'']
   \<and> deps_registered (jobs (scheduler (run sample_validate (\<lambda>w. 0)
         [Invoke, Resume 0, Call (RemoveJob ''D''),
          Call (RegisterJob (sample_job ''L'' None (Inr ())) ''0 * * * *'' True),
          Resume 0, Resume 0, Resume 0, Resume 0]
         sample_process)))
   \<and> detectCircularDependencies (scheduler (run sample_validate (\<lambda>w. 0)
         [Invoke, Resume 0, Call (RemoveJob ''D''),
          Call (RegisterJob (sample_job ''L'' None (Inr ())) ''0 * * * *'' True),
          Resume 0, Resume 0, Resume 0, Resume 0]
         sample_process)) = Inr ()
   \<and> returned (run sample_validate (\<lambda>w. 0)
         [Invoke, Resume 0, Call (RemoveJob ''D''),
          Call (RegisterJob (sample_job ''L'' None (Inr ())) ''0 * * * *'' True),
          Resume 0, Resume 0, Resume 0, Resume 0]
         sample_process) =
       [Inr [\<lparr>success = False, message = None, error = Some (ErrorObject ''boom''),
              executionTime = 0, jobName = Some ''A'', dependenciesMet = Some True,
              skippedReason = None\<rparr>,
             \<lparr>success = False, message = None, error = None, executionTime = 0,
              jobName = Some ''B'', dependenciesMet = Some False,
              skippedReason = Some ''Dependency failed or was skipped: A''\<rparr>,
             \<lparr>success = False, message = None, error = None, executionTime = 0,
              jobName = Some ''C'', dependenciesMet = Some False,
              skippedReason = Some ''Dependency failed or was skipped: B''\<rparr>]]"
proof -
  have removed:
    "getJobs (fold (apply_call sample_validate) sample_calls new_JobScheduler) = [''B'']
     \<and> \<not> isExecuting (fold (apply_call sample_validate) sample_calls new_JobScheduler)
     \<and> fst (executeJobsWithDependencies (\<lambda>w. 0)
              (fold (apply_call sample_validate) sample_calls new_JobScheduler)
              \<lparr>world = (), invoked = []\<rparr>) = Inr []"
    unfolding sample_calls_state
    by (simp add: getJobs_def sample_job_def executeJobsWithDependencies_def
          resolveDependencies_def init_graph_def degree_of_def Let_def)
  have before: "getJobs sample_scheduler = [''A'', ''B'', ''C'', ''D'']"
    "deps_registered (jobs sample_scheduler)"
    "detectCircularDependencies sample_scheduler = Inr ()"
    by (simp_all add: getJobs_def deps_registered_def detectCircularDependencies_def deps_of_def
          sample_scheduler_def sample_job_def)
  have after1:
    "getJobs (scheduler (run sample_validate (\<lambda>w. 0)
       [Invoke, Resume 0, Call (RemoveJob ''D''),
        Call (RegisterJob (sample_job ''L'' None (Inr ())) ''0 * * * *'' True),
        Resume 0, Resume 0, Resume 0, Resume 0]
       sample_process)) = [''A'', ''B'', ''C'', ''L'']"
    by code_simp
  have after2:
    "deps_registered (jobs (scheduler (run sample_validate (\<lambda>w. 0)
       [Invoke, Resume 0, Call (RemoveJob ''D''),
        Call (RegisterJob (sample_job ''L'' None (Inr ())) ''0 * * * *'' True),
        Resume 0, Resume 0, Resume 0, Resume 0]
       sample_process)))"
    by code_simp
  have after3:
    "detectCircularDependencies (scheduler (run sample_validate (\<lambda>w. 0)
       [Invoke, Resume 0, Call (RemoveJob ''D''),
        Call (RegisterJob (sample_job ''L'' None (Inr ())) ''0 * * * *'' True),
        Resume 0, Resume 0, Resume 0, Resume 0]
       sample_process)) = Inr ()"
    by code_simp
  have results:
    "returned (run sample_validate (\<lambda>w. 0)
       [Invoke, Resume 0, Call (RemoveJob ''D''),
        Call (RegisterJob (sample_job ''L'' None (Inr ())) ''0 * * * *'' True),
        Resume 0, Resume 0, Resume 0, Resume 0]
       sample_process) =
     [Inr [\<lparr>success = False, message = None, error = Some (ErrorObject ''boom''),
            executionTime = 0, jobName = Some ''A'', dependenciesMet = Some True,
            skippedReason = None\<rparr>,
           \<lparr>success = False, message = None, error = None, executionTime = 0,
            jobName = Some ''B'', dependenciesMet = Some False,
            skippedReason = Some ''Dependency failed or was skipped: A''\<rparr>,
           \<lparr>success = False, message = None, error = None, executionTime = 0,
            jobName = Some ''C'', dependenciesMet = Some False,
            skippedReason = Some ''Dependency failed or was skipped: B''\<rparr>]]"
    by code_simp
  show ?thesis
    by (intro conjI removed[THEN conjunct1] removed[THEN conjunct2, THEN conjunct1]
          removed[THEN conjunct2, THEN conjunct2] before after1 after2 after3 results)
qed

text \<open>
  C7, amended. \<open>executeJobsWithDependencies\<close> is the round with no other call of the
  scheduler between its awaits (lemma \<open>uninterrupted_round\<close>), so no job is registered
  or removed while it runs; what it returns is what any round returns during which no
  job is registered or removed (lemma \<open>frozen_round\<close>). When every declared name of every registered job is
  registered and the graph has no cycle, such a round that the guard does not drop
  and that returns its list returns one result per registered job, none left out and
  none twice, named in the order of \<^verbatim>\<open>resolveDependencies\<close>, which has dependencies
  first. A round that throws returns no list (see C9); it returns whenever no job
  throws a value without a conversion to a string (lemma \<open>round_returns\<close>).
\<close>

theorem one_result_per_registered_job:
  assumes "\<not> isExecuting s" and "distinct (map fst (jobs s))"
    and "deps_registered (jobs s)" and "\<not> cyclic (jobs s)"
    and "fst (executeJobsWithDependencies now s rt) = Inr rs"
  shows "map jobName rs = map Some (resolveDependencies s)
       \<and> distinct (resolveDependencies s)
       \<and> set (resolveDependencies s) = set (getJobs s)
       \<and> dependencies_first (jobs s) (resolveDependencies s)"
proof -
  have reg: "\<forall>n \<in> set (resolveDependencies s). map_of (jobs s) n \<noteq> None"
    using assms(2) by (rule order_registered)
  obtain completed rt' where
    run: "run_jobs now s (resolveDependencies s) ([], {}, rt) = Inr (rs, completed, rt')"
    using assms(1,5)
    by (auto simp: executeJobsWithDependencies_idle split: sum.splits prod.splits)
  have "map jobName rs = map Some (resolveDependencies s)"
    using round_names[OF reg run] by simp
  then show ?thesis
    using resolveDependencies_valid[OF assms(2,3,4)] by (simp add: getJobs_def)
qed

theorem one_result_per_registered_job_witness:
  "\<not> isExecuting sample_scheduler \<and> distinct (map fst (jobs sample_scheduler))
   \<and> deps_registered (jobs sample_scheduler) \<and> \<not> cyclic (jobs sample_scheduler)
   \<and> getJobs sample_scheduler = [''A'', ''B'', ''C'', ''D'']
   \<and> map jobName (case fst (executeJobsWithDependencies (\<lambda>w. 0) sample_scheduler
                                \<lparr>world = (), invoked = []\<rparr>) of
                      Inl e \<Rightarrow> [] | Inr rs \<Rightarrow> rs)
        = [Some ''A'', Some ''D'', Some ''B'', Some ''C'']
   \<and> dependencies_first (jobs sample_scheduler) [''A'', ''D'', ''B'', ''C'']"
proof -
  have a: "\<not> isExecuting sample_scheduler" "distinct (map fst (jobs sample_scheduler))"
    by (simp_all add: sample_scheduler_def)
  have r: "deps_registered (jobs sample_scheduler)"
    by (simp add: deps_registered_def deps_of_def sample_scheduler_def sample_job_def)
  have "detectCircularDependencies sample_scheduler = Inr ()"
    by (simp add: detectCircularDependencies_def deps_of_def sample_scheduler_def sample_job_def)
  then have c: "\<not> cyclic (jobs sample_scheduler)" by (rule acyclic_by_detection)
  have g: "getJobs sample_scheduler = [''A'', ''B'', ''C'', ''D'']"
    by (simp add: getJobs_def sample_scheduler_def)
  have e: "fst (executeJobsWithDependencies (\<lambda>w. 0) sample_scheduler \<lparr>world = (), invoked = []\<rparr>)
             = Inr (case fst (executeJobsWithDependencies (\<lambda>w. 0) sample_scheduler
                                \<lparr>world = (), invoked = []\<rparr>) of
                      Inl e \<Rightarrow> [] | Inr rs \<Rightarrow> rs)"
    by (simp add: sample_round)
  show ?thesis
    using one_result_per_registered_job[OF a r c e] a r c g
    by (simp add: sample_order)
qed

subsection \<open>C8: one task per cron expression\<close>

text \<open>
  C8 fails on the code. \<^verbatim>\<open>registerJob\<close> adds the name to the group of the expression
  it is given and leaves the groups of other expressions as they are, so a job that
  is registered a second time under another expression is a member of two groups.
  \<^verbatim>\<open>removeJob\<close>, whose comment says that it removes the job from the schedule groups,
  takes the name out of the first group that has it and stops there (\<^verbatim>\<open>break\<close>).

  On a new scheduler A is registered under \<^verbatim>\<open>0 * * * *\<close> and then under
  \<^verbatim>\<open>*/5 * * * *\<close>, where it is the only member of the group, and then removed. No job
  is registered afterwards, and yet the second expression still has its group, with A
  in it, and its task, which was neither stopped nor discarded. When \<^verbatim>\<open>start()\<close> is
  called before the removal, that task is still armed after it. What holds of the
  groups in every state is lemma \<open>one_task_per_group\<close>.
\<close>

theorem removeJob_leaves_second_group:
  "members (fold (apply_call two_schedules) twice_scheduled new_JobScheduler) ''*/5 * * * *''
     = {''A''}
   \<and> getJobs (fold (apply_call two_schedules) (twice_scheduled @ [RemoveJob ''A''])
                new_JobScheduler) = []
   \<and> members (fold (apply_call two_schedules) (twice_scheduled @ [RemoveJob ''A''])
                new_JobScheduler) ''*/5 * * * *'' = {''A''}
   \<and> tasks_on (fold (apply_call two_schedules) (twice_scheduled @ [RemoveJob ''A''])
                 new_JobScheduler) ''*/5 * * * *'' = [1]
   \<and> cron_tasks (fold (apply_call two_schedules) (twice_scheduled @ [RemoveJob ''A''])
                   new_JobScheduler) ! 1 = \<lparr>expression = ''*/5 * * * *'', status = Created\<rparr>
   \<and> getJobs (fold (apply_call two_schedules) (twice_scheduled @ [Start, RemoveJob ''A''])
                new_JobScheduler) = []
   \<and> tasks_on (fold (apply_call two_schedules) (twice_scheduled @ [Start, RemoveJob ''A''])
                 new_JobScheduler) ''*/5 * * * *'' = [1]
   \<and> armed_on (fold (apply_call two_schedules) (twice_scheduled @ [Start, RemoveJob ''A''])
                 new_JobScheduler) ''*/5 * * * *'' = [1]"
  unfolding twice_scheduled_state twice_scheduled_removed twice_scheduled_started_removed
  by (simp add: members_def getJobs_def tasks_on_def armed_on_def)

subsection \<open>C9: a job that throws\<close>

text \<open>
  C9 fails on the code. The \<^verbatim>\<open>catch\<close> of \<^verbatim>\<open>executeJob\<close> is written to turn whatever was
  thrown into an \<^verbatim>\<open>Error\<close>: a value that is not one is wrapped with
  \<^verbatim>\<open>new Error(String(error))\<close>. For a value that has no conversion to a string
  \<^verbatim>\<open>String(error)\<close> throws inside the \<^verbatim>\<open>catch\<close>, so \<^verbatim>\<open>executeJob\<close> rejects; the round
  awaits it inside a \<^verbatim>\<open>try\<close> that has a \<^verbatim>\<open>finally\<close> and no \<^verbatim>\<open>catch\<close>, so the round
  rejects in turn.

  A and B are registered, neither declares a dependency, and the \<^verbatim>\<open>execute()\<close> of A
  throws \<^verbatim>\<open>Object.create(null)\<close>. The order is A, B. The round is rejected with the
  \<^verbatim>\<open>TypeError\<close> of the conversion: no result is recorded for A, B is never run, and the
  error reaches the caller; only the flag is cleared. For a thrown value that does
  convert the code does what C9 says (lemmas \<open>executeJob_catch\<close> and
  \<open>thrown_error_recorded\<close>), and the general form of the failure is lemma
  \<open>round_rejects\<close>.
\<close>

theorem unconvertible_throw_rejects_round:
  "resolveDependencies (fold (apply_call sample_validate) unconvertible_calls new_JobScheduler)
     = [''A'', ''B'']
   \<and> fst (executeJobsWithDependencies (\<lambda>w. 0)
            (fold (apply_call sample_validate) unconvertible_calls new_JobScheduler)
            \<lparr>world = (), invoked = []\<rparr>)
       = Inl (ErrorObject ''Cannot convert object to primitive value'')
   \<and> invoked (snd (snd (executeJobsWithDependencies (\<lambda>w. 0)
            (fold (apply_call sample_validate) unconvertible_calls new_JobScheduler)
            \<lparr>world = (), invoked = []\<rparr>))) = [''A'']
   \<and> \<not> isExecuting (fst (snd (executeJobsWithDependencies (\<lambda>w. 0)
            (fold (apply_call sample_validate) unconvertible_calls new_JobScheduler)
            \<lparr>world = (), invoked = []\<rparr>)))
   \<and> returned (run sample_validate (\<lambda>w. 0) [Invoke, Resume 0]
         \<lparr>scheduler = fold (apply_call sample_validate) unconvertible_calls new_JobScheduler,
          environment = \<lparr>world = (), invoked = []\<rparr>, inflight = [], returned = []\<rparr>)
       = [Inl (ErrorObject ''Cannot convert object to primitive value'')]"
proof -
  have idle: "\<not> isExecuting (fold (apply_call sample_validate) unconvertible_calls new_JobScheduler)"
    unfolding unconvertible_calls_state by simp
  have round:
    "executeJobsWithDependencies (\<lambda>w. 0)
       (fold (apply_call sample_validate) unconvertible_calls new_JobScheduler)
       \<lparr>world = (), invoked = []\<rparr> =
     (Inl (ErrorObject ''Cannot convert object to primitive value''),
      fold (apply_call sample_validate) unconvertible_calls new_JobScheduler,
      \<lparr>world = (), invoked = [''A'']\<rparr>)"
    unfolding executeJobsWithDependencies_idle[OF idle] unconvertible_order
    unfolding unconvertible_calls_state
    by (simp add: run_job_def executeJob_def sample_job_def Let_def)
  have events:
    "returned (run sample_validate (\<lambda>w. 0) [Invoke, Resume 0]
       \<lparr>scheduler = fold (apply_call sample_validate) unconvertible_calls new_JobScheduler,
        environment = \<lparr>world = (), invoked = []\<rparr>, inflight = [], returned = []\<rparr>)
     = [Inl (ErrorObject ''Cannot convert object to primitive value'')]"
    by code_simp
  show ?thesis
    unfolding round using unconvertible_order idle events by simp
qed

subsection \<open>C10: executeJob on a name that is not registered\<close>

text \<open>
  C10. The public \<^verbatim>\<open>executeJob(jobName)\<close> on a name that is not registered does not
  throw: its promise is fulfilled (\<open>Inr\<close>) with a result that has \<open>success = False\<close>,
  \<open>executionTime = 0\<close> and the error \<^verbatim>\<open>Job not found: <name>\<close>; no \<^verbatim>\<open>execute()\<close> is
  called and the environment is as before.
\<close>

theorem executeJob_not_registered:
  "map_of (jobs s) job_name = None \<Longrightarrow>
   executeJob now s job_name rt =
     (Inr \<lparr>success = False, message = None,
           error = Some (ErrorObject (''Job not found: '' @ job_name)),
           executionTime = 0, jobName = None, dependenciesMet = None, skippedReason = None\<rparr>,
      rt)"
  by (simp add: executeJob_def)

theorem executeJob_not_registered_witness:
  "map_of (jobs (new_JobScheduler :: unit JobScheduler)) ''ghost'' = None \<and>
   executeJob (\<lambda>w. 0) (new_JobScheduler :: unit JobScheduler) ''ghost''
       \<lparr>world = (), invoked = []\<rparr> =
     (Inr \<lparr>success = False, message = None,
           error = Some (ErrorObject ''Job not found: ghost''),
           executionTime = 0, jobName = None, dependenciesMet = None, skippedReason = None\<rparr>,
      \<lparr>world = (), invoked = []\<rparr>)"
  using executeJob_not_registered[of "new_JobScheduler :: unit JobScheduler" "''ghost''"
          "\<lambda>w. 0" "\<lparr>world = (), invoked = []\<rparr>"]
  by (simp add: new_JobScheduler_def)

end
